theory Spec2Isabelle
  imports Main
begin

section \<open>Strings of the host language\<close>

text \<open>
  A string is a list of characters; a character stands for one code unit of the
  source string (code units below 256). The operations below are the library
  operations that \<^verbatim>\<open>src/index.ts\<close> calls, with the argument shapes it uses.
\<close>

abbreviation newline :: char where
  "newline \<equiv> CHR 0x0A"

abbreviation space :: char where
  "space \<equiv> CHR 0x20"

text \<open>\<^verbatim>\<open>' '.repeat(n)\<close>\<close>

definition repeat_space :: "nat \<Rightarrow> string" where
  "repeat_space n = replicate n space"

text \<open>\<^verbatim>\<open>xs.join(sep)\<close>: the separator goes between consecutive elements only.\<close>

fun join :: "string \<Rightarrow> string list \<Rightarrow> string" where
  "join sep [] = []"
| "join sep [x] = x"
| "join sep (x # y # ys) = x @ sep @ join sep (y # ys)"

text \<open>
  \<^verbatim>\<open>s.replace(pat, rep)\<close> with a string pattern: the pattern is taken literally
  and only the leftmost occurrence is replaced.
\<close>

fun js_replace :: "string \<Rightarrow> string \<Rightarrow> string \<Rightarrow> string" where
  "js_replace [] pat rep = (if pat = [] then rep else [])"
| "js_replace (c # cs) pat rep =
     (if take (length pat) (c # cs) = pat then rep @ drop (length pat) (c # cs)
      else c # js_replace cs pat rep)"

text \<open>White space as \<^verbatim>\<open>trim\<close> and \<^verbatim>\<open>parseInt\<close> see it, among code units below 256.\<close>

definition js_whitespace :: "char \<Rightarrow> bool" where
  "js_whitespace c = (c = CHR 0x09 \<or> c = CHR 0x0A \<or> c = CHR 0x0B \<or> c = CHR 0x0C
                      \<or> c = CHR 0x0D \<or> c = CHR 0x20 \<or> c = CHR 0xA0)"

definition js_trim :: "string \<Rightarrow> string" where
  "js_trim s = rev (dropWhile js_whitespace (rev (dropWhile js_whitespace s)))"

text \<open>
  \<^verbatim>\<open>s.search(',')\<close>: the string becomes the regular expression that matches a
  comma; the result is the index of the first match, or \<open>-1\<close>.
\<close>

fun search_comma :: "string \<Rightarrow> int" where
  "search_comma [] = -1"
| "search_comma (c # cs) =
     (if c = CHR '','' then 0
      else (let r = search_comma cs in if r < 0 then -1 else r + 1))"

text \<open>
  \<^verbatim>\<open>s.slice(start, end)\<close>: a negative index counts from the end, every index is
  clamped to the string, and an empty range gives the empty string.
\<close>

definition slice_index :: "nat \<Rightarrow> int \<Rightarrow> nat" where
  "slice_index len i = (if i < 0 then nat (max (int len + i) 0) else min (nat i) len)"

definition js_slice :: "string \<Rightarrow> int \<Rightarrow> int \<Rightarrow> string" where
  "js_slice s start end =
     (let from = slice_index (length s) start;
          to = slice_index (length s) end
      in take (to - from) (drop from s))"

text \<open>\<^verbatim>\<open>s.slice(start)\<close>: the end defaults to the length.\<close>

definition js_slice_from :: "string \<Rightarrow> int \<Rightarrow> string" where
  "js_slice_from s start = js_slice s start (int (length s))"

text \<open>\<^verbatim>\<open>n.toString()\<close> of an integer, in decimal.\<close>

definition digit_char :: "nat \<Rightarrow> char" where
  "digit_char d = char_of (48 + d)"

function nat_toString :: "nat \<Rightarrow> string" where
  "nat_toString n = (if n < 10 then [digit_char n]
                     else nat_toString (n div 10) @ [digit_char (n mod 10)])"
  by pat_completeness auto
termination
  by (relation "measure (\<lambda>n. n)") auto

definition toString :: "int \<Rightarrow> string" where
  "toString i = (if i < 0 then CHR ''-'' # nat_toString (nat (- i)) else nat_toString (nat i))"

text \<open>\<^verbatim>\<open>s.padStart(n, '0')\<close>\<close>

definition padStart :: "nat \<Rightarrow> char \<Rightarrow> string \<Rightarrow> string" where
  "padStart n c s = replicate (n - length s) c @ s"

text \<open>
  \<^verbatim>\<open>parseInt(s, 10)\<close>: leading white space and one sign are skipped, the longest
  run of decimal digits is read, and no digit at all gives NaN (\<open>None\<close>).
\<close>

definition is_digit :: "char \<Rightarrow> bool" where
  "is_digit c = ((48::nat) \<le> of_char c \<and> of_char c \<le> (57::nat))"

definition digit_val :: "char \<Rightarrow> int" where
  "digit_val c = int (of_char c) - 48"

definition digits_val :: "string \<Rightarrow> int" where
  "digits_val ds = foldl (\<lambda>a c. 10 * a + digit_val c) 0 ds"

definition parseInt10 :: "string \<Rightarrow> int option" where
  "parseInt10 s =
     (let t = dropWhile js_whitespace s;
          neg = (t \<noteq> [] \<and> hd t = CHR ''-'');
          u = (if t \<noteq> [] \<and> (hd t = CHR ''-'' \<or> hd t = CHR ''+'') then tl t else t);
          ds = takeWhile is_digit u
      in if ds = [] then None
         else Some (if neg then - digits_val ds else digits_val ds))"

section \<open>Dates of the host language\<close>

text \<open>
  A \<^verbatim>\<open>Date\<close> is read and written through its local calendar fields only:
  the full year, the month counted from 0, and the day of the month.
\<close>

record js_date =
  getFullYear :: int
  getMonth :: int
  getDate :: int

definition leap_year :: "int \<Rightarrow> bool" where
  "leap_year y = (y mod 4 = 0 \<and> (y mod 100 \<noteq> 0 \<or> y mod 400 = 0))"

definition days_in_month :: "int \<Rightarrow> int \<Rightarrow> int" where
  "days_in_month y m =
     (if m = 1 then (if leap_year y then 29 else 28)
      else if m = 3 \<or> m = 5 \<or> m = 8 \<or> m = 10 then 30 else 31)"

definition valid_date :: "js_date \<Rightarrow> bool" where
  "valid_date d = (0 \<le> getMonth d \<and> getMonth d \<le> 11 \<and> 1 \<le> getDate d
                   \<and> getDate d \<le> days_in_month (getFullYear d) (getMonth d))"

text \<open>
  \<^verbatim>\<open>getDay()\<close>: the day of the week, Sunday = 0 .. Saturday = 6, from the number
  of days since 1970-01-01, a Thursday.
\<close>

definition days_from_civil :: "js_date \<Rightarrow> int" where
  "days_from_civil d =
     (let m = getMonth d + 1;
          y = (if m \<le> 2 then getFullYear d - 1 else getFullYear d);
          era = y div 400;
          yoe = y - era * 400;
          doy = (153 * (if m > 2 then m - 3 else m + 9) + 2) div 5 + getDate d - 1;
          doe = yoe * 365 + yoe div 4 - yoe div 100 + doy
      in era * 146097 + doe - 719468)"

definition getDay :: "js_date \<Rightarrow> int" where
  "getDay d = (days_from_civil d + 4) mod 7"

text \<open>
  \<^verbatim>\<open>setDate(n)\<close>: the day of the month is set relative to the current month; a
  value below 1 runs into the previous months and a value beyond the end of
  the month into the following ones.
\<close>

function setDate_norm :: "int \<Rightarrow> int \<Rightarrow> int \<Rightarrow> js_date" where
  "setDate_norm y m n =
     (if n < 1 then
        (let y' = (if m mod 12 = 0 then y - 1 else y);
             m' = (m - 1) mod 12
         in setDate_norm y' m' (n + days_in_month y' m'))
      else if n > days_in_month y (m mod 12) then
        (let y' = (if m mod 12 = 11 then y + 1 else y);
             m' = (m + 1) mod 12
         in setDate_norm y' m' (n - days_in_month y (m mod 12)))
      else \<lparr>getFullYear = y, getMonth = m mod 12, getDate = n\<rparr>)"
  by pat_completeness auto
termination
  by (relation "measure (\<lambda>(y, m, n). if n < 1 then nat (1 - n) + 32 else nat n)")
     (auto simp: days_in_month_def)

definition setDate :: "js_date \<Rightarrow> int \<Rightarrow> js_date" where
  "setDate d n = setDate_norm (getFullYear d) (getMonth d) n"

section \<open>Blocks and pages\<close>

text \<open>
  A \<^verbatim>\<open>BlockEntity\<close> has a content and optional children; a child is a block
  or a \<^verbatim>\<open>BlockUUIDTuple\<close>.
\<close>

datatype block = Block (content: string) (children: "child list option")
and child = Resolved block | UUIDTuple string string

text \<open>A \<^verbatim>\<open>PageEntity\<close>, with the two fields that are read.\<close>

record page_entity =
  originalName :: string
  journalDay :: "int option"

type_synonym linked_reference = "page_entity option \<times> block list"

datatype error = TypeError

section \<open>The renderer\<close>

fun buildMdBlock :: "block \<Rightarrow> nat \<Rightarrow> string" where
  "buildMdBlock (Block c ch) indent =
     (let md_content = (if length c > 0
                        then repeat_space (indent * 2) @ ''- '' @ c @ [newline] else []);
          next_indent = (if length c > 0 then indent + 1 else indent)
      in case ch of
           None \<Rightarrow> md_content
         | Some cs \<Rightarrow>
             foldl (\<lambda>md x. case x of Resolved b \<Rightarrow> md @ buildMdBlock b next_indent
                                  | UUIDTuple u v \<Rightarrow> md)
                   md_content cs)"

section \<open>The digest\<close>

text \<open>Lines 40 to 50: the Monday of the current week as a number.\<close>

definition daysToSubtract :: "js_date \<Rightarrow> int" where
  "daysToSubtract today = (getDay today + 6) mod 7"

definition startOfWeek :: "js_date \<Rightarrow> js_date" where
  "startOfWeek today = setDate today (getDate today - daysToSubtract today)"

definition yyyymmdd :: "js_date \<Rightarrow> int option" where
  "yyyymmdd d =
     (let year = getFullYear d;
          month = padStart 2 (CHR ''0'') (toString (getMonth d + 1));
          day = padStart 2 (CHR ''0'') (toString (getDate d))
      in parseInt10 (toString year @ month @ day))"

definition startOfWeekMondayYYYYMMDD :: "js_date \<Rightarrow> int option" where
  "startOfWeekMondayYYYYMMDD today = yyyymmdd (startOfWeek today)"

text \<open>
  Lines 53 to 61: the callback of the filter. A comparison with NaN is false.
\<close>

fun keep_reference :: "int option \<Rightarrow> linked_reference \<Rightarrow> bool" where
  "keep_reference start (page, blocks) =
     (case page of
        None \<Rightarrow> False
      | Some p \<Rightarrow>
          (case journalDay p of
             None \<Rightarrow> False
           | Some d \<Rightarrow>
               if d = 0 then False
               else (case start of None \<Rightarrow> False | Some w \<Rightarrow> d \<ge> w)))"

text \<open>Lines 62 to 66: the comparator of the sort.\<close>

definition journalDay_or_0 :: "page_entity option \<Rightarrow> int" where
  "journalDay_or_0 page =
     (case page of None \<Rightarrow> 0
      | Some p \<Rightarrow> (case journalDay p of None \<Rightarrow> 0 | Some d \<Rightarrow> d))"

definition compare_refs :: "linked_reference \<Rightarrow> linked_reference \<Rightarrow> int" where
  "compare_refs a b = journalDay_or_0 (fst b) - journalDay_or_0 (fst a)"

text \<open>
  \<^verbatim>\<open>xs.sort(cmp)\<close>: a stable sort; an element goes before the elements it
  compares less than or equal to among those that followed it.
\<close>

fun insert_by :: "('a \<Rightarrow> 'a \<Rightarrow> int) \<Rightarrow> 'a \<Rightarrow> 'a list \<Rightarrow> 'a list" where
  "insert_by cmp x [] = [x]"
| "insert_by cmp x (y # ys) =
     (if cmp x y \<le> 0 then x # y # ys else y # insert_by cmp x ys)"

fun js_sort :: "('a \<Rightarrow> 'a \<Rightarrow> int) \<Rightarrow> 'a list \<Rightarrow> 'a list" where
  "js_sort cmp [] = []"
| "js_sort cmp (x # xs) = insert_by cmp x (js_sort cmp xs)"

definition journalBlocks ::
  "int option \<Rightarrow> linked_reference list option \<Rightarrow> linked_reference list option" where
  "journalBlocks start linkedReferences =
     map_option (\<lambda>refs. js_sort compare_refs (filter (keep_reference start) refs))
       linkedReferences"

text \<open>Line 84: the new content of a block of a journal page.\<close>

definition clean_content :: "string \<Rightarrow> string \<Rightarrow> string" where
  "clean_content page c =
     js_trim (js_replace (js_replace c (''#[['' @ page @ '']]'') [])
                         (''[['' @ page @ '']]'') [])"

definition clean_block :: "string \<Rightarrow> block \<Rightarrow> block" where
  "clean_block page b = Block (clean_content page (content b)) (children b)"

text \<open>Lines 91 to 93: the date of the header without its ordinal.\<close>

definition reformat_date :: "string \<Rightarrow> string" where
  "reformat_date name =
     (let index = search_comma name
      in js_slice name 0 (index - 2) @ js_slice_from name index)"

text \<open>
  Lines 77 to 96: the section of one journal page. Reading \<^verbatim>\<open>originalName\<close>
  of a page that is null raises.
\<close>

fun build_section :: "string \<Rightarrow> linked_reference \<Rightarrow> error + string" where
  "build_section page (header, journals) =
     (let md_journals =
            join [newline] (map (\<lambda>b. buildMdBlock (clean_block page b) 0) journals)
      in case header of
           None \<Rightarrow> Inl TypeError
         | Some h \<Rightarrow> Inr (''**'' @ reformat_date (originalName h) @ ''**'' @ [newline]
                          @ md_journals))"

fun map_result :: "('a \<Rightarrow> error + 'b) \<Rightarrow> 'a list \<Rightarrow> error + 'b list" where
  "map_result f [] = Inr []"
| "map_result f (x # xs) =
     (case f x of
        Inl e \<Rightarrow> Inl e
      | Inr y \<Rightarrow> (case map_result f xs of Inl e \<Rightarrow> Inl e | Inr ys \<Rightarrow> Inr (y # ys)))"

text \<open>Line 69: the blocks of the page itself.\<close>

definition render_page :: "block list \<Rightarrow> string" where
  "render_page pageBlocks = join [newline] (map (\<lambda>b. buildMdBlock b 0) pageBlocks)"

text \<open>
  \<^verbatim>\<open>buildMd\<close>: the page name, the two values fetched from the host and the
  current date give the document that is logged, or the error that is raised.
  Calling \<^verbatim>\<open>map\<close> on an undefined \<^verbatim>\<open>journalBlocks\<close> raises.
\<close>

definition buildMd ::
  "string \<Rightarrow> block list \<Rightarrow> linked_reference list option \<Rightarrow> js_date \<Rightarrow> error + string" where
  "buildMd page pageBlocks linkedReferences today =
     (let start = startOfWeekMondayYYYYMMDD today;
          jbs = journalBlocks start linkedReferences;
          md_content = render_page pageBlocks @ ''----'' @ [newline]
                       @ ''## Backlog'' @ [newline]
      in case jbs of
           None \<Rightarrow> Inl TypeError
         | Some groups \<Rightarrow>
             (case map_result (build_section page) groups of
                Inl e \<Rightarrow> Inl e
              | Inr sections \<Rightarrow> Inr (md_content @ join [newline] sections)))"

section \<open>Notions used in the statements\<close>

text \<open>What one child contributes at an indent: a placeholder contributes nothing.\<close>

definition render_child :: "nat \<Rightarrow> child \<Rightarrow> string" where
  "render_child n x = (case x of Resolved b \<Rightarrow> buildMdBlock b n | UUIDTuple u v \<Rightarrow> [])"

definition children_list :: "block \<Rightarrow> child list" where
  "children_list b = (case children b of None \<Rightarrow> [] | Some cs \<Rightarrow> cs)"

text \<open>The line that a block with non-empty content gives at an indent.\<close>

definition own_line :: "nat \<Rightarrow> string \<Rightarrow> string" where
  "own_line n t = replicate (2 * n) space @ ''- '' @ t @ [newline]"

text \<open>
  The blocks of a tree in the order of the traversal, each with the list of
  its ancestors (nearest first); placeholders and whatever they stand for are
  not part of the tree.
\<close>

fun nodes_with_ancestors :: "block \<Rightarrow> block list \<Rightarrow> (block list \<times> block) list" where
  "nodes_with_ancestors (Block c ch) anc =
     (anc, Block c ch) #
     (case ch of
        None \<Rightarrow> []
      | Some cs \<Rightarrow>
          concat (map (\<lambda>x. case x of
                             Resolved b \<Rightarrow> nodes_with_ancestors b (Block c ch # anc)
                           | UUIDTuple u v \<Rightarrow> []) cs))"

definition has_text :: "block \<Rightarrow> bool" where
  "has_text b = (content b \<noteq> [])"

text \<open>The depth of a block: how many of its ancestors have non-empty content.\<close>

definition text_depth :: "block list \<Rightarrow> nat" where
  "text_depth anc = length (filter has_text anc)"

text \<open>The number of blocks of a tree with non-empty content.\<close>

definition nonempty_nodes :: "block \<Rightarrow> nat" where
  "nonempty_nodes b = length (filter (\<lambda>(anc, n). has_text n) (nodes_with_ancestors b []))"

text \<open>The number of lines of a text whose lines all end in a newline.\<close>

definition line_count :: "string \<Rightarrow> nat" where
  "line_count s = length (filter (\<lambda>c. c = newline) s)"

text \<open>No content in the tree holds a newline of its own.\<close>

definition single_line_texts :: "block \<Rightarrow> bool" where
  "single_line_texts b =
     list_all (\<lambda>(anc, n). newline \<notin> set (content n)) (nodes_with_ancestors b [])"

text \<open>
  The references with their positions in the sequence that is sorted, and the
  comparator of the sort on them: it looks at the reference only.
\<close>

definition tagged :: "'a list \<Rightarrow> ('a \<times> nat) list" where
  "tagged xs = zip xs [0..<length xs]"

definition compare_tagged :: "linked_reference \<times> nat \<Rightarrow> linked_reference \<times> nat \<Rightarrow> int" where
  "compare_tagged a b = compare_refs (fst a) (fst b)"

definition sort_key :: "linked_reference \<times> nat \<Rightarrow> int" where
  "sort_key t = journalDay_or_0 (fst (fst t))"

text \<open>
  The order of the claim: a later day first, and for the same day the
  reference that came first in the sequence.
\<close>

definition goes_before :: "linked_reference \<times> nat \<Rightarrow> linked_reference \<times> nat \<Rightarrow> bool" where
  "goes_before a b =
     (sort_key a > sort_key b \<or> (sort_key a = sort_key b \<and> snd a < snd b))"

text \<open>The month before a month of a year, and its year.\<close>

definition prev_year :: "int \<Rightarrow> int \<Rightarrow> int" where
  "prev_year y m = (if m = 0 then y - 1 else y)"

definition prev_month :: "int \<Rightarrow> int" where
  "prev_month m = (if m = 0 then 11 else m - 1)"

text \<open>The day before a date, and the date a number of days before a date.\<close>

definition prev_day :: "js_date \<Rightarrow> js_date" where
  "prev_day d =
     (if getDate d > 1 then d\<lparr>getDate := getDate d - 1\<rparr>
      else if getMonth d = 0
           then \<lparr>getFullYear = getFullYear d - 1, getMonth = 11, getDate = 31\<rparr>
           else \<lparr>getFullYear = getFullYear d, getMonth = getMonth d - 1,
                 getDate = days_in_month (getFullYear d) (getMonth d - 1)\<rparr>)"

fun days_before :: "nat \<Rightarrow> js_date \<Rightarrow> js_date" where
  "days_before 0 d = d"
| "days_before (Suc k) d = prev_day (days_before k d)"

text \<open>The number written with four or more digits of the year, two of the month, two of the day.\<close>

definition date_number :: "js_date \<Rightarrow> int" where
  "date_number d = getFullYear d * 10000 + (getMonth d + 1) * 100 + getDate d"

section \<open>The renderer: basic facts\<close>

lemma block_tree_induct [case_names Block]:
  assumes step: "\<And>b. (\<And>b'. Resolved b' \<in> set (children_list b) \<Longrightarrow> P b') \<Longrightarrow> P b"
  shows "P b"
proof -
  have "P b" for i :: nat
  proof (induction b i rule: buildMdBlock.induct)
    case (1 c ch indent)
    show ?case
    proof (rule step)
      fix b' assume "Resolved b' \<in> set (children_list (Block c ch))"
      then obtain cs where "ch = Some cs" "Resolved b' \<in> set cs"
        by (auto simp: children_list_def split: option.splits)
      then show "P b'" using 1 [OF refl refl] by blast
    qed
  qed
  then show ?thesis .
qed

lemma foldl_render_child:
  "foldl (\<lambda>md x. case x of Resolved b \<Rightarrow> md @ buildMdBlock b n | UUIDTuple u v \<Rightarrow> md) acc cs
   = acc @ concat (map (render_child n) cs)"
  by (induction cs arbitrary: acc) (auto simp: render_child_def split: child.splits)

lemma buildMdBlock_unfold:
  "buildMdBlock b i =
     (if content b = [] then concat (map (render_child i) (children_list b))
      else own_line i (content b) @ concat (map (render_child (Suc i)) (children_list b)))"
  by (cases b)
     (simp add: foldl_render_child children_list_def own_line_def repeat_space_def
        mult.commute split: option.splits)

text \<open>The nodes that one child brings into the listing of its parent.\<close>

lemma nodes_with_ancestors_unfold:
  "nodes_with_ancestors b anc =
     (anc, b) #
     concat (map (\<lambda>x. case x of Resolved b' \<Rightarrow> nodes_with_ancestors b' (b # anc)
                              | UUIDTuple u v \<Rightarrow> [])
                 (children_list b))"
  by (cases b) (simp add: children_list_def split: option.splits)

lemma concat_map_cases:
  assumes "\<And>x. x \<in> set xs \<Longrightarrow> f x = [] \<or> last (f x) = c"
  shows "concat (map f xs) = [] \<or> last (concat (map f xs)) = c"
  using assms
proof (induction xs rule: rev_induct)
  case Nil
  then show ?case by simp
next
  case (snoc x xs)
  then show ?case by (cases "f x = []") auto
qed

lemma buildMdBlock_last:
  "buildMdBlock b i = [] \<or> last (buildMdBlock b i) = newline"
proof (induction b arbitrary: i rule: block_tree_induct)
  case (Block b)
  have kids: "concat (map (render_child n) (children_list b)) = []
      \<or> last (concat (map (render_child n) (children_list b))) = newline" for n
  proof (rule concat_map_cases)
    fix x assume x: "x \<in> set (children_list b)"
    show "render_child n x = [] \<or> last (render_child n x) = newline"
    proof (cases x)
      case (Resolved b')
      with x Block [of b' n] show ?thesis by (simp add: render_child_def)
    next
      case (UUIDTuple u v)
      then show ?thesis by (simp add: render_child_def)
    qed
  qed
  show ?case
    using kids [of i] kids [of "Suc i"]
    by (subst (1 2) buildMdBlock_unfold) (auto simp add: own_line_def)
qed

lemma join_append:
  "xs \<noteq> [] \<Longrightarrow> ys \<noteq> [] \<Longrightarrow> join sep (xs @ ys) = join sep xs @ sep @ join sep ys"
  by (induction sep xs rule: join.induct) (auto simp: neq_Nil_conv)

lemma join_Cons:
  "join sep (x # xs) = (if xs = [] then x else x @ sep @ join sep xs)"
  by (cases xs) auto

lemma render_page_pair:
  assumes a: "buildMdBlock a 0 \<noteq> []"
  shows "\<exists>u. buildMdBlock a 0 = u @ [newline] \<and>
     render_page (pre @ a # b # post) =
       (if pre = [] then [] else render_page pre @ [newline])
       @ u @ [newline] @ [newline] @ buildMdBlock b 0
       @ (if post = [] then [] else newline # render_page post)"
proof -
  from a buildMdBlock_last [of a 0] have "last (buildMdBlock a 0) = newline" by simp
  with a have ua: "buildMdBlock a 0 = butlast (buildMdBlock a 0) @ [newline]"
    by (metis append_butlast_last_id)
  have mid: "render_page (a # b # post) = buildMdBlock a 0 @ [newline] @ buildMdBlock b 0
        @ (if post = [] then [] else newline # render_page post)"
    by (simp add: render_page_def join_Cons del: buildMdBlock.simps)
  have "render_page (pre @ a # b # post) =
      (if pre = [] then [] else render_page pre @ [newline]) @ render_page (a # b # post)"
    unfolding render_page_def
    by (cases "pre = []") (simp_all add: join_append del: join.simps buildMdBlock.simps)
  with mid ua show ?thesis
    by (intro exI [of _ "butlast (buildMdBlock a 0)"]) (metis append.assoc)
qed

lemma line_count_append: "line_count (xs @ ys) = line_count xs + line_count ys"
  by (simp add: line_count_def)

lemma line_count_concat:
  "line_count (concat (map f xs)) = sum_list (map (\<lambda>x. line_count (f x)) xs)"
  by (induction xs) (simp_all add: line_count_append, simp add: line_count_def)

lemma length_filter_concat:
  "length (filter P (concat (map g xs))) = sum_list (map (\<lambda>x. length (filter P (g x))) xs)"
  by (induction xs) simp_all

lemma list_all_concat:
  "list_all P (concat (map g xs)) = (\<forall>x \<in> set xs. list_all P (g x))"
  by (induction xs) simp_all

lemma line_count_own_line:
  "newline \<notin> set t \<Longrightarrow> line_count (own_line n t) = 1"
  by (auto simp: line_count_def own_line_def filter_empty_conv)

lemma line_count_nodes:
  "list_all (\<lambda>(a, n). newline \<notin> set (content n)) (nodes_with_ancestors b anc) \<Longrightarrow>
   line_count (buildMdBlock b i)
     = length (filter (\<lambda>(a, n). has_text n) (nodes_with_ancestors b anc))"
proof (induction b arbitrary: anc i rule: block_tree_induct)
  case (Block b)
  define g where "g = (\<lambda>x. case x of Resolved b' \<Rightarrow> nodes_with_ancestors b' (b # anc)
                          | UUIDTuple u v \<Rightarrow> [])"
  have nodes: "nodes_with_ancestors b anc = (anc, b) # concat (map g (children_list b))"
    unfolding g_def by (rule nodes_with_ancestors_unfold)
  from Block.prems have c: "newline \<notin> set (content b)"
    and kids: "\<forall>x \<in> set (children_list b).
          list_all (\<lambda>(a, n). newline \<notin> set (content n)) (g x)"
    by (simp_all add: nodes list_all_concat)
  have each: "line_count (render_child k x) = length (filter (\<lambda>(a, n). has_text n) (g x))"
    if "x \<in> set (children_list b)" for x k
  proof (cases x)
    case (Resolved b')
    with that kids Block.IH [of b' "b # anc" k] show ?thesis
      by (auto simp: render_child_def g_def)
  next
    case (UUIDTuple u v)
    then show ?thesis by (simp add: render_child_def line_count_def g_def)
  qed
  have sum: "sum_list (map (\<lambda>x. line_count (render_child k x)) (children_list b))
      = sum_list (map (\<lambda>x. length (filter (\<lambda>(a, n). has_text n) (g x))) (children_list b))"
    for k
    by (rule arg_cong [where f = sum_list], rule map_cong [OF refl]) (rule each)
  have hb: "has_text b \<longleftrightarrow> content b \<noteq> []"
    by (simp add: has_text_def)
  show ?case
    using c sum [of i] sum [of "Suc i"]
    by (subst buildMdBlock_unfold)
       (simp add: nodes line_count_append line_count_concat line_count_own_line
          length_filter_concat hb)
qed

lemma concat_map_concat:
  "concat (map f (concat (map g xs))) = concat (map (\<lambda>x. concat (map f (g x))) xs)"
  by (induction xs) simp_all

lemma buildMdBlock_lines:
  "buildMdBlock b (i + text_depth anc)
     = concat (map (\<lambda>(a, n). if has_text n then own_line (i + text_depth a) (content n) else [])
                   (nodes_with_ancestors b anc))"
proof (induction b arbitrary: anc rule: block_tree_induct)
  case (Block b)
  define F where
    "F = (\<lambda>(a, n). if has_text n then own_line (i + text_depth a) (content n) else [])"
  define g where "g = (\<lambda>x. case x of Resolved b' \<Rightarrow> nodes_with_ancestors b' (b # anc)
                          | UUIDTuple u v \<Rightarrow> [])"
  have nodes: "nodes_with_ancestors b anc = (anc, b) # concat (map g (children_list b))"
    unfolding g_def by (rule nodes_with_ancestors_unfold)
  have each: "render_child (i + text_depth (b # anc)) x = concat (map F (g x))"
    if "x \<in> set (children_list b)" for x
  proof (cases x)
    case (Resolved b')
    with that Block.IH [of b' "b # anc"] show ?thesis
      by (simp add: render_child_def g_def F_def)
  next
    case (UUIDTuple u v)
    then show ?thesis by (simp add: render_child_def g_def)
  qed
  have kids: "concat (map (render_child (i + text_depth (b # anc))) (children_list b))
      = concat (map F (concat (map g (children_list b))))"
    unfolding concat_map_concat
    by (rule arg_cong [where f = concat], rule map_cong [OF refl]) (rule each)
  have depth: "text_depth (b # anc)
      = (if content b = [] then text_depth anc else Suc (text_depth anc))"
    by (simp add: text_depth_def has_text_def)
  have own: "F (anc, b) = (if content b = [] then [] else own_line (i + text_depth anc) (content b))"
    by (simp add: F_def has_text_def)
  have "buildMdBlock b (i + text_depth anc) = F (anc, b) @ concat (map F (concat (map g (children_list b))))"
    unfolding kids [symmetric] own depth
    by (subst buildMdBlock_unfold) simp
  then show ?case
    unfolding nodes F_def by simp
qed

lemma buildMd_starts_with_page:
  "buildMd page pageBlocks refs today = Inr doc \<Longrightarrow> \<exists>rest. doc = render_page pageBlocks @ rest"
  by (auto simp: buildMd_def Let_def split: option.splits sum.splits)

section \<open>Claims about the renderer\<close>

text \<open>
  C9: whatever the tree and the indent, the output of \<open>buildMdBlock\<close> is empty or
  ends in a newline. So when two consecutive blocks of the page both give a
  non-empty output, the first output is some \<open>u\<close> followed by a newline, and in
  the joined text of the page it is followed by a second newline before the
  output of the next block: there is an empty line between the two. Every
  document that \<open>buildMd\<close> gives starts with this text.
\<close>

theorem buildMdBlock_newline_terminated:
  "(buildMdBlock b i = [] \<or> last (buildMdBlock b i) = newline) \<and>
   (buildMdBlock a 0 \<noteq> [] \<and> buildMdBlock a' 0 \<noteq> [] \<longrightarrow>
     (\<exists>u. buildMdBlock a 0 = u @ [newline] \<and>
        render_page (pre @ a # a' # post) =
          (if pre = [] then [] else render_page pre @ [newline])
          @ u @ [newline] @ [newline] @ buildMdBlock a' 0
          @ (if post = [] then [] else newline # render_page post) \<and>
        (\<forall>doc. buildMd page (pre @ a # a' # post) refs today = Inr doc \<longrightarrow>
           (\<exists>rest. doc = (if pre = [] then [] else render_page pre @ [newline])
                          @ u @ [newline] @ [newline] @ buildMdBlock a' 0 @ rest))))"
proof -
  have "\<exists>u. buildMdBlock a 0 = u @ [newline] \<and>
        render_page (pre @ a # a' # post) =
          (if pre = [] then [] else render_page pre @ [newline])
          @ u @ [newline] @ [newline] @ buildMdBlock a' 0
          @ (if post = [] then [] else newline # render_page post) \<and>
        (\<forall>doc. buildMd page (pre @ a # a' # post) refs today = Inr doc \<longrightarrow>
           (\<exists>rest. doc = (if pre = [] then [] else render_page pre @ [newline])
                          @ u @ [newline] @ [newline] @ buildMdBlock a' 0 @ rest))"
    if ne: "buildMdBlock a 0 \<noteq> []"
  proof -
    from render_page_pair [OF ne, of pre a' post] obtain u
      where u: "buildMdBlock a 0 = u @ [newline]"
        and r: "render_page (pre @ a # a' # post) =
          (if pre = [] then [] else render_page pre @ [newline])
          @ u @ [newline] @ [newline] @ buildMdBlock a' 0
          @ (if post = [] then [] else newline # render_page post)"
      by blast
    have "\<exists>rest. doc = (if pre = [] then [] else render_page pre @ [newline])
                          @ u @ [newline] @ [newline] @ buildMdBlock a' 0 @ rest"
      if "buildMd page (pre @ a # a' # post) refs today = Inr doc" for doc
    proof -
      from buildMd_starts_with_page [OF that] obtain rest
        where "doc = render_page (pre @ a # a' # post) @ rest" by blast
      then have "doc = (if pre = [] then [] else render_page pre @ [newline])
          @ u @ [newline] @ [newline] @ buildMdBlock a' 0
          @ ((if post = [] then [] else newline # render_page post) @ rest)"
        unfolding r by simp
      then show ?thesis by blast
    qed
    with u r show ?thesis by blast
  qed
  with buildMdBlock_last [of b i] show ?thesis by blast
qed

theorem buildMdBlock_newline_terminated_witness:
  "buildMdBlock (Block ''A'' None) 0 \<noteq> [] \<and> buildMdBlock (Block ''B'' None) 0 \<noteq> [] \<and>
   (\<exists>u. buildMdBlock (Block ''A'' None) 0 = u @ [newline] \<and>
      render_page ([] @ Block ''A'' None # Block ''B'' None # []) =
        u @ [newline] @ [newline] @ buildMdBlock (Block ''B'' None) 0) \<and>
   render_page [Block ''A'' None, Block ''B'' None]
     = ''- A'' @ [newline] @ [newline] @ ''- B'' @ [newline]"
proof -
  have h: "buildMdBlock (Block ''A'' None) 0 \<noteq> [] \<and> buildMdBlock (Block ''B'' None) 0 \<noteq> []"
    by simp
  from h buildMdBlock_newline_terminated
         [of "Block ''A'' None" 0 "Block ''A'' None" "Block ''B'' None" "[]" "[]"]
  have "\<exists>u. buildMdBlock (Block ''A'' None) 0 = u @ [newline] \<and>
      render_page ([] @ Block ''A'' None # Block ''B'' None # []) =
        (if [] = ([] :: block list) then [] else render_page [] @ [newline])
        @ u @ [newline] @ [newline] @ buildMdBlock (Block ''B'' None) 0
        @ (if [] = ([] :: block list) then [] else newline # render_page [])"
    by blast
  then have e: "\<exists>u. buildMdBlock (Block ''A'' None) 0 = u @ [newline] \<and>
      render_page ([] @ Block ''A'' None # Block ''B'' None # []) =
        u @ [newline] @ [newline] @ buildMdBlock (Block ''B'' None) 0"
    by simp
  have v: "render_page [Block ''A'' None, Block ''B'' None]
     = ''- A'' @ [newline] @ [newline] @ ''- B'' @ [newline]"
    by (simp add: render_page_def repeat_space_def)
  from h e v show ?thesis by blast
qed

text \<open>
  C3, as amended: when no content in the tree holds a newline of its own, the
  number of lines of the output of \<open>buildMdBlock\<close>, at every indent, is the number
  of blocks of the tree (the block itself and its descendants, placeholders
  skipped) whose content is non-empty.
\<close>

theorem line_count_buildMdBlock:
  "single_line_texts b \<Longrightarrow> line_count (buildMdBlock b i) = nonempty_nodes b"
  unfolding single_line_texts_def nonempty_nodes_def by (rule line_count_nodes)

theorem line_count_buildMdBlock_witness:
  "single_line_texts
     (Block ''A'' (Some [Resolved (Block [] (Some [Resolved (Block ''B'' None)])),
                         UUIDTuple ''u'' ''v'', Resolved (Block [] None)])) \<and>
   line_count
     (buildMdBlock
        (Block ''A'' (Some [Resolved (Block [] (Some [Resolved (Block ''B'' None)])),
                            UUIDTuple ''u'' ''v'', Resolved (Block [] None)])) 1)
   = nonempty_nodes
       (Block ''A'' (Some [Resolved (Block [] (Some [Resolved (Block ''B'' None)])),
                           UUIDTuple ''u'' ''v'', Resolved (Block [] None)])) \<and>
   nonempty_nodes
       (Block ''A'' (Some [Resolved (Block [] (Some [Resolved (Block ''B'' None)])),
                           UUIDTuple ''u'' ''v'', Resolved (Block [] None)])) = 2"
proof -
  let ?t = "Block ''A'' (Some [Resolved (Block [] (Some [Resolved (Block ''B'' None)])),
                               UUIDTuple ''u'' ''v'', Resolved (Block [] None)])"
  have h: "single_line_texts ?t"
    by (simp add: single_line_texts_def)
  have n: "nonempty_nodes ?t = 2"
    by (simp add: nonempty_nodes_def has_text_def)
  from h n line_count_buildMdBlock [OF h, of 1] show ?thesis by simp
qed

text \<open>
  C3 as stated fails: a block whose content is two lines long is one block
  with non-empty content and gives two lines.
\<close>

theorem line_count_buildMdBlock_counterexample:
  "line_count (buildMdBlock (Block [CHR ''a'', newline, CHR ''b''] None) 0)
     \<noteq> nonempty_nodes (Block [CHR ''a'', newline, CHR ''b''] None)"
  by (simp add: line_count_def nonempty_nodes_def has_text_def repeat_space_def)

text \<open>
  C4: a block with empty content gives no line of its own and its children are
  rendered at the same indent; a block with non-empty content gives one line,
  made of two spaces per indent level, then \<open>- \<close>, the content and a newline,
  and its children are rendered one level deeper. So the output at indent \<open>i\<close>
  is, in the order of the traversal, one line for each block with non-empty
  content, indented by two spaces for each of the \<open>i\<close> levels and for each
  ancestor of the block whose content is non-empty.
\<close>

theorem buildMdBlock_indentation:
  "(content b = [] \<longrightarrow>
      buildMdBlock b i = concat (map (render_child i) (children_list b))) \<and>
   (content b \<noteq> [] \<longrightarrow>
      buildMdBlock b i = replicate (2 * i) space @ ''- '' @ content b @ [newline]
                         @ concat (map (render_child (i + 1)) (children_list b))) \<and>
   buildMdBlock b i =
     concat (map (\<lambda>(anc, n). if content n = [] then []
                              else replicate (2 * (i + text_depth anc)) space
                                   @ ''- '' @ content n @ [newline])
                 (nodes_with_ancestors b []))"
proof -
  have 1: "content b = [] \<longrightarrow>
      buildMdBlock b i = concat (map (render_child i) (children_list b))"
    by (subst buildMdBlock_unfold) simp
  have 2: "content b \<noteq> [] \<longrightarrow>
      buildMdBlock b i = replicate (2 * i) space @ ''- '' @ content b @ [newline]
                         @ concat (map (render_child (i + 1)) (children_list b))"
    by (subst buildMdBlock_unfold) (simp add: own_line_def)
  have fn: "(\<lambda>(anc, n). if has_text n then own_line (i + text_depth anc) (content n) else [])
      = (\<lambda>(anc, n). if content n = [] then []
                     else replicate (2 * (i + text_depth anc)) space
                          @ ''- '' @ content n @ [newline])"
    by (auto simp: fun_eq_iff has_text_def own_line_def)
  have 3: "buildMdBlock b i =
     concat (map (\<lambda>(anc, n). if content n = [] then []
                              else replicate (2 * (i + text_depth anc)) space
                                   @ ''- '' @ content n @ [newline])
                 (nodes_with_ancestors b []))"
    using buildMdBlock_lines [of b i "[]"] unfolding fn by (simp add: text_depth_def)
  from 1 2 3 show ?thesis by blast
qed

theorem buildMdBlock_indentation_witness:
  "content (Block [] (Some [Resolved (Block ''X'' None)])) = [] \<and>
   buildMdBlock (Block [] (Some [Resolved (Block ''X'' None)])) 1
     = concat (map (render_child 1) (children_list (Block [] (Some [Resolved (Block ''X'' None)])))) \<and>
   buildMdBlock (Block [] (Some [Resolved (Block ''X'' None)])) 1 = ''  - X'' @ [newline] \<and>
   content (Block ''P'' (Some [Resolved (Block ''X'' None)])) \<noteq> [] \<and>
   buildMdBlock (Block ''P'' (Some [Resolved (Block ''X'' None)])) 1
     = replicate 2 space @ ''- '' @ ''P'' @ [newline]
       @ concat (map (render_child 2) (children_list (Block ''P'' (Some [Resolved (Block ''X'' None)])))) \<and>
   buildMdBlock (Block ''P'' (Some [Resolved (Block ''X'' None)])) 1
     = ''  - P'' @ [newline] @ ''    - X'' @ [newline]"
proof -
  let ?E = "Block [] (Some [Resolved (Block ''X'' None)])"
  let ?P = "Block ''P'' (Some [Resolved (Block ''X'' None)])"
  have e: "content ?E = []" by simp
  have p: "content ?P \<noteq> []" by simp
  from e buildMdBlock_indentation [of ?E 1]
  have e1: "buildMdBlock ?E 1 = concat (map (render_child 1) (children_list ?E))"
    by blast
  from p buildMdBlock_indentation [of ?P 1]
  have p1: "buildMdBlock ?P 1 = replicate (2 * 1) space @ ''- '' @ content ?P @ [newline]
       @ concat (map (render_child (1 + 1)) (children_list ?P))"
    by blast
  have e2: "buildMdBlock ?E 1 = ''  - X'' @ [newline]"
    by (simp add: repeat_space_def eval_nat_numeral)
  have p2: "buildMdBlock ?P 1 = ''  - P'' @ [newline] @ ''    - X'' @ [newline]"
    by (simp add: repeat_space_def eval_nat_numeral)
  from p1 have p1': "buildMdBlock ?P 1 = replicate 2 space @ ''- '' @ ''P'' @ [newline]
       @ concat (map (render_child 2) (children_list ?P))"
    by (simp only: mult_1_right one_add_one block.sel)
  from e p e1 e2 p1' p2 show ?thesis by (intro conjI)
qed

section \<open>The filter and the sort: basic facts\<close>

lemma keep_reference_iff:
  "keep_reference (Some w) (page, blocks) \<longleftrightarrow>
     (\<exists>p d. page = Some p \<and> journalDay p = Some d \<and> d \<noteq> 0 \<and> w \<le> d)"
  by (auto split: option.splits)

lemma map_fst_insert_by:
  "map fst (insert_by (\<lambda>a b. c (fst a) (fst b)) x ys) = insert_by c (fst x) (map fst ys)"
  by (induction ys) simp_all

lemma map_fst_js_sort:
  "map fst (js_sort (\<lambda>a b. c (fst a) (fst b)) zs) = js_sort c (map fst zs)"
  by (induction zs) (simp_all add: map_fst_insert_by)

lemma set_insert_by: "set (insert_by c x ys) = insert x (set ys)"
  by (induction ys) auto

lemma set_js_sort: "set (js_sort c xs) = set xs"
  by (induction xs) (simp_all add: set_insert_by)

lemma length_insert_by: "length (insert_by c x ys) = Suc (length ys)"
  by (induction ys) simp_all

lemma length_js_sort: "length (js_sort c xs) = length xs"
  by (induction xs) (simp_all add: length_insert_by)

lemma distinct_insert_by: "distinct (insert_by c x ys) \<longleftrightarrow> x \<notin> set ys \<and> distinct ys"
  by (induction ys) (auto simp: set_insert_by)

lemma distinct_js_sort: "distinct (js_sort c xs) \<longleftrightarrow> distinct xs"
  by (induction xs) (simp_all add: distinct_insert_by set_js_sort)

lemma compare_tagged_le: "compare_tagged x y \<le> 0 \<longleftrightarrow> sort_key y \<le> sort_key x"
  by (simp add: compare_tagged_def compare_refs_def sort_key_def)

lemma sorted_insert_by:
  "sorted_wrt goes_before ys \<Longrightarrow> \<forall>y \<in> set ys. snd x < snd y \<Longrightarrow>
   sorted_wrt goes_before (insert_by compare_tagged x ys)"
proof (induction ys)
  case Nil
  then show ?case by simp
next
  case (Cons y ys)
  show ?case
  proof (cases "compare_tagged x y \<le> 0")
    case True
    then have xy: "sort_key y \<le> sort_key x" by (simp add: compare_tagged_le)
    have "goes_before x z" if "z \<in> set (y # ys)" for z
    proof -
      from that Cons.prems(1) have "z = y \<or> goes_before y z" by auto
      then have "sort_key z \<le> sort_key y" by (auto simp: goes_before_def)
      moreover from that Cons.prems(2) have "snd x < snd z" by blast
      ultimately show ?thesis using xy by (auto simp: goes_before_def)
    qed
    with True Cons.prems(1) show ?thesis by simp
  next
    case False
    then have yx: "goes_before y x"
      by (auto simp: compare_tagged_le goes_before_def)
    from Cons have "sorted_wrt goes_before (insert_by compare_tagged x ys)" by simp
    with False yx Cons.prems(1) show ?thesis by (simp add: set_insert_by)
  qed
qed

lemma sorted_js_sort:
  "sorted_wrt (\<lambda>a b. snd a < snd b) zs \<Longrightarrow> sorted_wrt goes_before (js_sort compare_tagged zs)"
proof (induction zs)
  case Nil
  then show ?case by simp
next
  case (Cons z zs)
  then show ?case by (simp add: sorted_insert_by set_js_sort)
qed

lemma map_snd_tagged: "map snd (tagged xs) = [0..<length xs]"
  by (simp add: tagged_def)

lemma map_fst_tagged: "map fst (tagged xs) = xs"
  by (simp add: tagged_def)

lemma sorted_tagged: "sorted_wrt (\<lambda>a b. snd a < snd b) (tagged xs)"
proof -
  have "sorted_wrt (<) (map snd (tagged xs))"
    unfolding map_snd_tagged by (rule sorted_wrt_upt)
  then show ?thesis by (simp add: sorted_wrt_map)
qed

lemma distinct_tagged: "distinct (tagged xs)"
proof -
  have "distinct (map snd (tagged xs))" unfolding map_snd_tagged by simp
  then show ?thesis by (rule distinct_map [THEN iffD1, THEN conjunct1])
qed

lemma goes_before_asym: "goes_before a b \<Longrightarrow> \<not> goes_before b a"
  by (auto simp: goes_before_def)

lemma sorted_sort_tagged: "sorted_wrt goes_before (js_sort compare_tagged (tagged refs))"
  by (rule sorted_js_sort [OF sorted_tagged])

lemma position_iff:
  assumes "sorted_wrt goes_before ys" "p < length ys" "q < length ys"
  shows "p < q \<longleftrightarrow> goes_before (ys ! p) (ys ! q)"
proof
  assume "p < q"
  with assms show "goes_before (ys ! p) (ys ! q)"
    by (simp add: sorted_wrt_iff_nth_less)
next
  assume g: "goes_before (ys ! p) (ys ! q)"
  show "p < q"
  proof (rule ccontr)
    assume "\<not> p < q"
    then consider "p = q" | "q < p" by linarith
    then show False
    proof cases
      case 1
      with g goes_before_asym show False by blast
    next
      case 2
      with assms have "goes_before (ys ! q) (ys ! p)"
        by (simp add: sorted_wrt_iff_nth_less)
      with g goes_before_asym show False by blast
    qed
  qed
qed

section \<open>The date of a header and the content of a journal block: basic facts\<close>

lemma search_comma_none: "CHR '','' \<notin> set s \<Longrightarrow> search_comma s = -1"
  by (induction s) (auto simp: Let_def)

lemma search_comma_first:
  "CHR '','' \<notin> set pre \<Longrightarrow> search_comma (pre @ CHR '','' # post) = int (length pre)"
  by (induction pre) (auto simp: Let_def)

lemma reformat_no_comma:
  assumes "CHR '','' \<notin> set s"
  shows "reformat_date s = take (length s - 3) s @ drop (length s - 1) s"
  using assms
  by (auto simp add: reformat_date_def search_comma_none js_slice_def js_slice_from_def
        slice_index_def Let_def nat_diff_distrib' max_def min_def)

lemma reformat_comma:
  assumes "CHR '','' \<notin> set pre" "2 \<le> length pre"
  shows "reformat_date (pre @ CHR '','' # post) = take (length pre - 2) pre @ CHR '','' # post"
  using assms
  by (auto simp add: reformat_date_def search_comma_first js_slice_def js_slice_from_def
        slice_index_def Let_def nat_diff_distrib' max_def min_def)

lemma reformat_short:
  assumes "CHR '','' \<notin> set pre" "length pre < 2"
  shows "reformat_date (pre @ CHR '','' # post)
     = take (length (pre @ CHR '','' # post) - (2 - length pre)) (pre @ CHR '','' # post)
       @ CHR '','' # post"
proof -
  from assms(2) consider "pre = []" | c where "pre = [c]"
    by (cases pre; cases "tl pre") auto
  then show ?thesis
  proof cases
    case 1
    then show ?thesis
      by (simp add: reformat_date_def js_slice_def js_slice_from_def slice_index_def
            nat_diff_distrib' max_def)
  next
    case 2
    with assms(1) have "c \<noteq> CHR '',''" by simp
    moreover have "nat (1 + int (length post)) = Suc (length post)" by simp
    ultimately show ?thesis using 2
      by (simp add: reformat_date_def js_slice_def js_slice_from_def slice_index_def
            nat_diff_distrib' max_def)
  qed
qed

section \<open>Claims about the date of a header and the content of a journal block\<close>

text \<open>
  C8: for every name, \<open>reformat_date\<close> is the slice from 0 to two before the
  index of the first comma, followed by the slice from that index on. It is a
  total function: no name raises an error. When at least two characters come
  before the first comma, these two characters are dropped, so that
  \<open>October 26th, 2023\<close> gives \<open>October 26, 2023\<close>. A name with no comma has the
  index \<open>-1\<close> and loses its last three characters but the very last one; a name
  with fewer than two characters before the comma gives a prefix of itself,
  counted from its end, followed by the part from the comma on.
\<close>

theorem reformat_date_cases:
  "reformat_date name
     = js_slice name 0 (search_comma name - 2) @ js_slice_from name (search_comma name) \<and>
   (CHR '','' \<notin> set pre \<longrightarrow> search_comma (pre @ CHR '','' # post) = int (length pre)) \<and>
   (CHR '','' \<notin> set pre \<and> 2 \<le> length pre \<longrightarrow>
      reformat_date (pre @ CHR '','' # post) = take (length pre - 2) pre @ CHR '','' # post) \<and>
   (CHR '','' \<notin> set name \<longrightarrow>
      search_comma name = -1 \<and>
      reformat_date name = take (length name - 3) name @ drop (length name - 1) name) \<and>
   (CHR '','' \<notin> set pre \<and> length pre < 2 \<longrightarrow>
      reformat_date (pre @ CHR '','' # post)
        = take (length (pre @ CHR '','' # post) - (2 - length pre)) (pre @ CHR '','' # post)
          @ CHR '','' # post) \<and>
   reformat_date ''October 26th, 2023'' = ''October 26, 2023''"
proof -
  have 1: "reformat_date name
     = js_slice name 0 (search_comma name - 2) @ js_slice_from name (search_comma name)"
    by (simp add: reformat_date_def Let_def)
  have 2: "reformat_date ''October 26th, 2023'' = ''October 26, 2023''"
    by (simp add: reformat_date_def js_slice_def js_slice_from_def slice_index_def)
  from 1 2 show ?thesis
    using search_comma_first [of pre post] search_comma_none [of name]
      reformat_comma [of pre post] reformat_no_comma [of name] reformat_short [of pre post]
    by blast
qed

theorem reformat_date_cases_witness:
  "CHR '','' \<notin> set ''October 26th'' \<and> 2 \<le> length ''October 26th'' \<and>
   reformat_date (''October 26th'' @ CHR '','' # '' 2023'') = ''October 26, 2023'' \<and>
   CHR '','' \<notin> set ''abcdef'' \<and> search_comma ''abcdef'' = -1 \<and>
   reformat_date ''abcdef'' = ''abcf'' \<and>
   CHR '','' \<notin> set ''a'' \<and> length ''a'' < 2 \<and>
   reformat_date (''a'' @ CHR '','' # ''bc'') = ''a,b,bc''"
proof -
  have h1: "CHR '','' \<notin> set ''October 26th'' \<and> 2 \<le> length ''October 26th''" by simp
  have h2: "CHR '','' \<notin> set ''abcdef''" by simp
  have h3: "CHR '','' \<notin> set ''a'' \<and> length ''a'' < 2" by simp
  from h1 reformat_date_cases [of _ "''October 26th''" "'' 2023''"]
  have a: "reformat_date (''October 26th'' @ CHR '','' # '' 2023'')
      = take (length ''October 26th'' - 2) ''October 26th'' @ CHR '','' # '' 2023''"
    by blast
  from h2 reformat_date_cases [of "''abcdef''"]
  have b: "search_comma ''abcdef'' = -1 \<and>
      reformat_date ''abcdef'' = take (length ''abcdef'' - 3) ''abcdef''
                                 @ drop (length ''abcdef'' - 1) ''abcdef''"
    by blast
  from h3 reformat_date_cases [of _ "''a''" "''bc''"]
  have c: "reformat_date (''a'' @ CHR '','' # ''bc'')
      = take (length (''a'' @ CHR '','' # ''bc'') - (2 - length ''a'')) (''a'' @ CHR '','' # ''bc'')
        @ CHR '','' # ''bc''"
    by blast
  from a have a': "reformat_date (''October 26th'' @ CHR '','' # '' 2023'') = ''October 26, 2023''"
    by simp
  from b have b': "search_comma ''abcdef'' = -1 \<and> reformat_date ''abcdef'' = ''abcf''"
    by simp
  from c have c': "reformat_date (''a'' @ CHR '','' # ''bc'') = ''a,b,bc''"
    by simp
  from h1 h2 h3 a' b' c' show ?thesis by blast
qed

text \<open>
  C2 on the code: \<open>replace\<close> with a string pattern removes the leftmost
  occurrence only. The content \<open>[[Foo]] x [[Foo]]\<close> of a journal block of the
  page \<open>Foo\<close> keeps its second link, and the link is in the section that is
  rendered.
\<close>

theorem clean_content_second_occurrence:
  "clean_content ''Foo'' ''[[Foo]] x [[Foo]]'' = ''x [[Foo]]'' \<and>
   build_section ''Foo''
     (Some \<lparr>originalName = ''January 2nd, 2024'', journalDay = Some 20240102\<rparr>,
      [Block ''[[Foo]] x [[Foo]]'' None])
   = Inr (''**January 2, 2024**'' @ [newline] @ ''- x [[Foo]]'' @ [newline])"
  by (simp add: clean_content_def clean_block_def js_trim_def js_whitespace_def
        reformat_date_def js_slice_def js_slice_from_def slice_index_def repeat_space_def)

section \<open>The document: basic facts\<close>

lemma keep_reference_page: "keep_reference start r \<Longrightarrow> fst r \<noteq> None"
  by (cases r) (auto split: option.splits)

lemma map_result_sections:
  "\<forall>r \<in> set rs. fst r \<noteq> None \<Longrightarrow> \<exists>ss. map_result (build_section page) rs = Inr ss"
proof (induction rs)
  case Nil
  then show ?case by simp
next
  case (Cons r rs)
  then obtain ss where ss: "map_result (build_section page) rs = Inr ss" by auto
  from Cons.prems obtain h js where r: "r = (Some h, js)" by (cases r) auto
  show ?case by (simp add: r ss Let_def)
qed

lemma buildMd_null: "buildMd page pageBlocks None today = Inl TypeError"
  by (simp add: buildMd_def journalBlocks_def)

lemma buildMd_sequence: "\<exists>doc. buildMd page pageBlocks (Some rs) today = Inr doc"
proof -
  let ?groups = "js_sort compare_refs (filter (keep_reference (startOfWeekMondayYYYYMMDD today)) rs)"
  have "\<forall>r \<in> set ?groups. fst r \<noteq> None"
    by (auto simp: set_js_sort simp del: keep_reference.simps dest: keep_reference_page)
  then obtain ss where "map_result (build_section page) ?groups = Inr ss"
    using map_result_sections by blast
  then show ?thesis by (simp add: buildMd_def journalBlocks_def Let_def)
qed

lemma buildMd_empty:
  "buildMd page pageBlocks (Some []) today
     = Inr (render_page pageBlocks @ ''----'' @ [newline] @ ''## Backlog'' @ [newline])"
  by (simp add: buildMd_def journalBlocks_def Let_def)

lemma example_document:
  assumes "startOfWeekMondayYYYYMMDD today = Some w" "w \<le> 20240102"
  shows "buildMd ''Page''
     [Block ''A'' None, Block ''B'' (Some [Resolved (Block ''B1'' None)])]
     (Some [(Some \<lparr>originalName = ''January 2nd, 2024'', journalDay = Some 20240102\<rparr>,
             [Block ''Task #[[Page]]'' None])])
     today
   = Inr (''- A'' @ [newline] @ [newline] @ ''- B'' @ [newline] @ ''  - B1'' @ [newline]
          @ ''----'' @ [newline] @ ''## Backlog'' @ [newline]
          @ ''**January 2, 2024**'' @ [newline] @ ''- Task'' @ [newline])"
  using assms
  by (simp add: buildMd_def journalBlocks_def render_page_def repeat_space_def
        clean_content_def clean_block_def js_trim_def js_whitespace_def
        reformat_date_def js_slice_def js_slice_from_def slice_index_def numeral_2_eq_2)

lemma start_example:
  "startOfWeekMondayYYYYMMDD \<lparr>getFullYear = 2024, getMonth = 0, getDate = 3\<rparr> = Some 20240101"
  by code_simp

section \<open>Claims about the document\<close>

text \<open>
  C10: when the linked references that were fetched are null, \<open>buildMd\<close> gives
  no document: the call of \<open>map\<close> on the undefined \<open>journalBlocks\<close> raises a
  \<open>TypeError\<close>, which nothing catches. So a document is given only when the
  linked references are a sequence; and every sequence gives one, the empty
  sequence the page followed by the rule and the heading.
\<close>

theorem buildMd_null_references:
  "buildMd page pageBlocks None today = Inl TypeError \<and>
   (\<forall>doc. buildMd page pageBlocks refs today = Inr doc \<longrightarrow> (\<exists>rs. refs = Some rs)) \<and>
   (\<exists>doc. buildMd page pageBlocks (Some rs) today = Inr doc) \<and>
   buildMd page pageBlocks (Some []) today
     = Inr (render_page pageBlocks @ ''----'' @ [newline] @ ''## Backlog'' @ [newline])"
proof -
  have "\<exists>rs. refs = Some rs" if "buildMd page pageBlocks refs today = Inr doc" for doc
    using that buildMd_null [of page pageBlocks today] by (cases refs) auto
  then show ?thesis
    using buildMd_null [of page pageBlocks today] buildMd_sequence [of page pageBlocks rs today]
      buildMd_empty [of page pageBlocks today]
    by blast
qed

theorem buildMd_null_references_witness:
  "buildMd ''Page'' [Block ''A'' None] (Some [])
     \<lparr>getFullYear = 2024, getMonth = 0, getDate = 3\<rparr>
     = Inr (''- A'' @ [newline] @ ''----'' @ [newline] @ ''## Backlog'' @ [newline]) \<and>
   (\<exists>rs. (Some [] :: linked_reference list option) = Some rs) \<and>
   buildMd ''Page'' [Block ''A'' None] None
     \<lparr>getFullYear = 2024, getMonth = 0, getDate = 3\<rparr> = Inl TypeError"
proof -
  let ?d = "\<lparr>getFullYear = 2024, getMonth = 0, getDate = 3\<rparr>"
  note t = buildMd_null_references [of "''Page''" "[Block ''A'' None]" ?d "Some []" "[]"]
  from t have doc: "buildMd ''Page'' [Block ''A'' None] (Some []) ?d
     = Inr (render_page [Block ''A'' None] @ ''----'' @ [newline] @ ''## Backlog'' @ [newline])"
    by blast
  from t doc have seq: "\<exists>rs. (Some [] :: linked_reference list option) = Some rs"
    by blast
  from t have null: "buildMd ''Page'' [Block ''A'' None] None ?d = Inl TypeError"
    by blast
  from doc have doc': "buildMd ''Page'' [Block ''A'' None] (Some []) ?d
     = Inr (''- A'' @ [newline] @ ''----'' @ [newline] @ ''## Backlog'' @ [newline])"
    by (simp add: render_page_def repeat_space_def)
  from doc' seq null show ?thesis by (intro conjI)
qed

text \<open>
  C1, as amended: for the page \<open>Page\<close> with the two blocks \<open>A\<close> and \<open>B\<close>, \<open>B\<close> with
  the child \<open>B1\<close>, and the one linked reference from the journal page of
  \<open>journalDay\<close> 20240102 named \<open>January 2nd, 2024\<close> with the block
  \<open>Task #[[Page]]\<close>, on every day whose week starts on or before 20240102,
  \<open>buildMd\<close> gives the lines \<open>- A\<close>, an empty line, \<open>- B\<close>, \<open>  - B1\<close>, \<open>----\<close>,
  \<open>## Backlog\<close>, \<open>**January 2, 2024**\<close> and \<open>- Task\<close>: the output of a block
  ends in a newline of its own, and the join puts one more between two blocks.
\<close>

theorem buildMd_example:
  "startOfWeekMondayYYYYMMDD today = Some w \<Longrightarrow> w \<le> 20240102 \<Longrightarrow>
   buildMd ''Page''
     [Block ''A'' None, Block ''B'' (Some [Resolved (Block ''B1'' None)])]
     (Some [(Some \<lparr>originalName = ''January 2nd, 2024'', journalDay = Some 20240102\<rparr>,
             [Block ''Task #[[Page]]'' None])])
     today
   = Inr (''- A'' @ [newline] @ [newline] @ ''- B'' @ [newline] @ ''  - B1'' @ [newline]
          @ ''----'' @ [newline] @ ''## Backlog'' @ [newline]
          @ ''**January 2, 2024**'' @ [newline] @ ''- Task'' @ [newline])"
  by (rule example_document)

theorem buildMd_example_witness:
  "startOfWeekMondayYYYYMMDD \<lparr>getFullYear = 2024, getMonth = 0, getDate = 3\<rparr>
     = Some 20240101 \<and>
   (20240101 :: int) \<le> 20240102 \<and>
   buildMd ''Page''
     [Block ''A'' None, Block ''B'' (Some [Resolved (Block ''B1'' None)])]
     (Some [(Some \<lparr>originalName = ''January 2nd, 2024'', journalDay = Some 20240102\<rparr>,
             [Block ''Task #[[Page]]'' None])])
     \<lparr>getFullYear = 2024, getMonth = 0, getDate = 3\<rparr>
   = Inr (''- A'' @ [newline] @ [newline] @ ''- B'' @ [newline] @ ''  - B1'' @ [newline]
          @ ''----'' @ [newline] @ ''## Backlog'' @ [newline]
          @ ''**January 2, 2024**'' @ [newline] @ ''- Task'' @ [newline])"
proof -
  have le: "(20240101 :: int) \<le> 20240102" by simp
  from start_example le buildMd_example [OF start_example le] show ?thesis
    by (intro conjI)
qed

text \<open>
  C1 as stated fails: on Wednesday 2024-01-03 the document is not the one of
  the claim, which has no empty line between \<open>- A\<close> and \<open>- B\<close>.
\<close>

theorem buildMd_example_counterexample:
  "buildMd ''Page''
     [Block ''A'' None, Block ''B'' (Some [Resolved (Block ''B1'' None)])]
     (Some [(Some \<lparr>originalName = ''January 2nd, 2024'', journalDay = Some 20240102\<rparr>,
             [Block ''Task #[[Page]]'' None])])
     \<lparr>getFullYear = 2024, getMonth = 0, getDate = 3\<rparr>
   \<noteq> Inr (''- A'' @ [newline] @ ''- B'' @ [newline] @ ''  - B1'' @ [newline]
          @ ''----'' @ [newline] @ ''## Backlog'' @ [newline]
          @ ''**January 2, 2024**'' @ [newline] @ ''- Task'' @ [newline])"
proof -
  have le: "(20240101 :: int) \<le> 20240102" by simp
  show ?thesis
    unfolding example_document [OF start_example le] by simp
qed

section \<open>The start of the week: basic facts\<close>

lemma days_in_month_bounds: "28 \<le> days_in_month y m \<and> days_in_month y m \<le> 31"
  by (simp add: days_in_month_def)

lemma setDate_norm_in_month:
  "1 \<le> n \<Longrightarrow> n \<le> days_in_month y m \<Longrightarrow> 0 \<le> m \<Longrightarrow> m \<le> 11 \<Longrightarrow>
   setDate_norm y m n = \<lparr>getFullYear = y, getMonth = m, getDate = n\<rparr>"
  by (subst setDate_norm.simps) simp

lemma setDate_norm_prev:
  assumes "n < 1" "- 27 \<le> n" "0 \<le> m" "m \<le> 11"
  shows "setDate_norm y m n =
     \<lparr>getFullYear = prev_year y m, getMonth = prev_month m,
      getDate = n + days_in_month (prev_year y m) (prev_month m)\<rparr>"
proof -
  have m': "(m - 1) mod 12 = prev_month m" "(if m mod 12 = 0 then y - 1 else y) = prev_year y m"
    using assms(3,4) by (auto simp: prev_month_def prev_year_def)
  have pm: "0 \<le> prev_month m" "prev_month m \<le> 11"
    using assms(3,4) by (auto simp: prev_month_def)
  have step: "setDate_norm y m n =
      setDate_norm (prev_year y m) (prev_month m) (n + days_in_month (prev_year y m) (prev_month m))"
    using assms(1) by (subst setDate_norm.simps) (simp add: m' Let_def del: setDate_norm.simps)
  show ?thesis
    unfolding step
    using assms(1,2) pm days_in_month_bounds [of "prev_year y m" "prev_month m"]
    by (intro setDate_norm_in_month) auto
qed

lemma prev_day_first:
  "0 \<le> m \<Longrightarrow> prev_day \<lparr>getFullYear = y, getMonth = m, getDate = 1\<rparr> =
     \<lparr>getFullYear = prev_year y m, getMonth = prev_month m,
      getDate = days_in_month (prev_year y m) (prev_month m)\<rparr>"
  by (auto simp: prev_day_def prev_year_def prev_month_def days_in_month_def)

lemma prev_day_later:
  "1 < n \<Longrightarrow> prev_day \<lparr>getFullYear = y, getMonth = m, getDate = n\<rparr> =
     \<lparr>getFullYear = y, getMonth = m, getDate = n - 1\<rparr>"
  by (simp add: prev_day_def)

lemma days_before_closed:
  assumes "0 \<le> m" "m \<le> 11" "1 \<le> d" "d \<le> days_in_month y m" "k \<le> 27"
  shows "days_before k \<lparr>getFullYear = y, getMonth = m, getDate = d\<rparr> =
     (if int k < d then \<lparr>getFullYear = y, getMonth = m, getDate = d - int k\<rparr>
      else \<lparr>getFullYear = prev_year y m, getMonth = prev_month m,
            getDate = d - int k + days_in_month (prev_year y m) (prev_month m)\<rparr>)"
  using assms(5)
proof (induction k)
  case 0
  with assms show ?case by simp
next
  case (Suc k)
  then have IH: "days_before k \<lparr>getFullYear = y, getMonth = m, getDate = d\<rparr> =
     (if int k < d then \<lparr>getFullYear = y, getMonth = m, getDate = d - int k\<rparr>
      else \<lparr>getFullYear = prev_year y m, getMonth = prev_month m,
            getDate = d - int k + days_in_month (prev_year y m) (prev_month m)\<rparr>)"
    by simp
  consider "int (Suc k) < d" | "int (Suc k) = d" | "d < int (Suc k)" by linarith
  then show ?case
  proof cases
    case 1
    then show ?thesis by (simp add: IH prev_day_later)
  next
    case 2
    then have "d - int k = 1" by simp
    with 2 assms(1) show ?thesis by (simp add: IH prev_day_first)
  next
    case 3
    with Suc.prems assms(3) days_in_month_bounds [of "prev_year y m" "prev_month m"]
    have "1 < d - int k + days_in_month (prev_year y m) (prev_month m)" by simp
    with 3 show ?thesis by (simp add: IH prev_day_later algebra_simps)
  qed
qed

lemma setDate_days_before:
  assumes "valid_date today" "k \<le> 27"
  shows "setDate today (getDate today - int k) = days_before k today"
proof -
  obtain y m d where t: "today = \<lparr>getFullYear = y, getMonth = m, getDate = d\<rparr>"
    by (cases today) simp
  from assms(1) have v: "0 \<le> m" "m \<le> 11" "1 \<le> d" "d \<le> days_in_month y m"
    by (simp_all add: valid_date_def t)
  show ?thesis
  proof (cases "int k < d")
    case True
    with v have "setDate_norm y m (d - int k) = \<lparr>getFullYear = y, getMonth = m, getDate = d - int k\<rparr>"
      by (intro setDate_norm_in_month) simp_all
    with True v assms(2) show ?thesis
      by (simp add: t setDate_def days_before_closed)
  next
    case False
    with v assms(2) have "setDate_norm y m (d - int k) =
       \<lparr>getFullYear = prev_year y m, getMonth = prev_month m,
        getDate = d - int k + days_in_month (prev_year y m) (prev_month m)\<rparr>"
      by (intro setDate_norm_prev) simp_all
    with False v assms(2) show ?thesis
      by (simp add: t setDate_def days_before_closed)
  qed
qed

lemma days_before_valid:
  assumes "valid_date today" "k \<le> 27"
  shows "valid_date (days_before k today) \<and>
         getFullYear today - 1 \<le> getFullYear (days_before k today)"
proof -
  obtain y m d where t: "today = \<lparr>getFullYear = y, getMonth = m, getDate = d\<rparr>"
    by (cases today) simp
  from assms(1) have v: "0 \<le> m" "m \<le> 11" "1 \<le> d" "d \<le> days_in_month y m"
    by (simp_all add: valid_date_def t)
  have pm: "0 \<le> prev_month m" "prev_month m \<le> 11"
    using v by (auto simp: prev_month_def)
  from v assms(2) pm days_in_month_bounds [of "prev_year y m" "prev_month m"]
  show ?thesis
    by (auto simp: t days_before_closed valid_date_def prev_year_def)
qed

lemma is_digit_digit_char: "d < 10 \<Longrightarrow> is_digit (digit_char d)"
  by (simp add: is_digit_def digit_char_def)

lemma digit_val_digit_char: "d < 10 \<Longrightarrow> digit_val (digit_char d) = int d"
  by (simp add: digit_val_def digit_char_def)

lemma is_digit_plain:
  "is_digit c \<Longrightarrow> \<not> js_whitespace c \<and> c \<noteq> CHR ''-'' \<and> c \<noteq> CHR ''+''"
  by (auto simp: is_digit_def js_whitespace_def)

lemma digits_val_snoc: "digits_val (ds @ [c]) = 10 * digits_val ds + digit_val c"
  by (simp add: digits_val_def)

lemma digits_val_append:
  "digits_val (as @ bs) = digits_val as * 10 ^ length bs + digits_val bs"
proof (induction bs rule: rev_induct)
  case Nil
  then show ?case by (simp add: digits_val_def)
next
  case (snoc b bs)
  have "digits_val (as @ bs @ [b]) = 10 * digits_val (as @ bs) + digit_val b"
    using digits_val_snoc [of "as @ bs" b] by simp
  then show ?case by (simp add: snoc digits_val_snoc algebra_simps)
qed

lemma nat_toString_digits:
  "list_all is_digit (nat_toString n) \<and> nat_toString n \<noteq> [] \<and> digits_val (nat_toString n) = int n"
proof (induction n rule: nat_toString.induct)
  case (1 n)
  show ?case
  proof (cases "n < 10")
    case True
    then show ?thesis
      by (subst (1 2 3) nat_toString.simps)
         (simp add: is_digit_digit_char digit_val_digit_char digits_val_def)
  next
    case False
    with 1 have IH: "list_all is_digit (nat_toString (n div 10))"
      "digits_val (nat_toString (n div 10)) = int (n div 10)" by simp_all
    have eq: "nat_toString n = nat_toString (n div 10) @ [digit_char (n mod 10)]"
      using False by (subst nat_toString.simps) simp
    have dm: "10 * int (n div 10) + int (n mod 10) = int n"
      by (simp add: zdiv_int zmod_int)
    show ?thesis
      unfolding eq
      by (simp add: IH digits_val_snoc is_digit_digit_char digit_val_digit_char dm
            del: nat_toString.simps)
  qed
qed

lemma parseInt10_digits:
  assumes "list_all is_digit s" "s \<noteq> []"
  shows "parseInt10 s = Some (digits_val s)"
proof -
  from assms have c: "is_digit (hd s)" by (cases s) auto
  from assms(1) have tw: "takeWhile is_digit s = s"
    by (simp add: list_all_iff)
  from c assms(2) have dw: "dropWhile js_whitespace s = s"
    using is_digit_plain [of "hd s"] by (cases s) auto
  from c have sign: "hd s \<noteq> CHR ''-''" "hd s \<noteq> CHR ''+''"
    using is_digit_plain [of "hd s"] by simp_all
  show ?thesis
    by (simp add: parseInt10_def dw tw sign assms(2) Let_def)
qed

lemma pad2_digits:
  assumes "1 \<le> n" "n \<le> 31"
  shows "list_all is_digit (padStart 2 (CHR ''0'') (toString n)) \<and>
         length (padStart 2 (CHR ''0'') (toString n)) = 2 \<and>
         digits_val (padStart 2 (CHR ''0'') (toString n)) = n"
proof (cases "n < 10")
  case True
  with assms have "toString n = [digit_char (nat n)]"
    by (simp add: toString_def)
  moreover have "is_digit CHR ''0''" "digit_val CHR ''0'' = 0"
    by (simp_all add: is_digit_def digit_val_def)
  moreover from True assms have "nat n < 10" by simp
  ultimately show ?thesis
    using assms by (simp add: padStart_def digits_val_def is_digit_digit_char digit_val_digit_char)
next
  case False
  with assms have "nat n div 10 < 10" "\<not> nat n < 10" by simp_all
  then have "nat_toString (nat n) = [digit_char (nat n div 10), digit_char (nat n mod 10)]"
    by (subst nat_toString.simps, subst nat_toString.simps) (simp del: nat_toString.simps)
  with False assms have ts: "toString n = [digit_char (nat n div 10), digit_char (nat n mod 10)]"
    by (simp add: toString_def)
  have "int (nat n div 10) * 10 + int (nat n mod 10) = n"
    using assms by (simp add: zdiv_int zmod_int)
  with \<open>nat n div 10 < 10\<close> show ?thesis
    by (simp add: ts padStart_def digits_val_def is_digit_digit_char digit_val_digit_char
          algebra_simps)
qed

lemma yyyymmdd_date_number:
  assumes "valid_date d" "0 \<le> getFullYear d"
  shows "yyyymmdd d = Some (date_number d)"
proof -
  let ?Y = "toString (getFullYear d)"
  let ?M = "padStart 2 (CHR ''0'') (toString (getMonth d + 1))"
  let ?D = "padStart 2 (CHR ''0'') (toString (getDate d))"
  from assms(2) have Y: "list_all is_digit ?Y" "?Y \<noteq> []" "digits_val ?Y = getFullYear d"
    using nat_toString_digits [of "nat (getFullYear d)"] by (simp_all add: toString_def)
  from assms(1) have "1 \<le> getMonth d + 1" "getMonth d + 1 \<le> 31"
    by (simp_all add: valid_date_def)
  then have M: "list_all is_digit ?M" "length ?M = 2" "digits_val ?M = getMonth d + 1"
    using pad2_digits [of "getMonth d + 1"] by simp_all
  from assms(1) have "1 \<le> getDate d" "getDate d \<le> 31"
    using days_in_month_bounds [of "getFullYear d" "getMonth d"]
    by (simp_all add: valid_date_def)
  then have D: "list_all is_digit ?D" "length ?D = 2" "digits_val ?D = getDate d"
    using pad2_digits [of "getDate d"] by simp_all
  from Y M D have "parseInt10 (?Y @ ?M @ ?D) = Some (digits_val (?Y @ ?M @ ?D))"
    by (intro parseInt10_digits) simp_all
  moreover have "digits_val (?Y @ ?M @ ?D) = date_number d"
    by (simp add: digits_val_append Y M D date_number_def)
  ultimately show ?thesis by (simp add: yyyymmdd_def Let_def)
qed

lemma daysToSubtract_range: "0 \<le> daysToSubtract today \<and> daysToSubtract today \<le> 6"
  by (simp add: daysToSubtract_def)

lemma startOfWeek_days_before:
  assumes "valid_date today"
  shows "startOfWeek today = days_before (nat (daysToSubtract today)) today"
proof -
  have "nat (daysToSubtract today) \<le> 27"
    using daysToSubtract_range [of today] by linarith
  from setDate_days_before [OF assms this] show ?thesis
    using daysToSubtract_range [of today] by (simp add: startOfWeek_def)
qed

lemma startOfWeek_number:
  assumes "valid_date today" "0 < getFullYear today"
  shows "startOfWeekMondayYYYYMMDD today = Some (date_number (startOfWeek today))"
proof -
  have k: "nat (daysToSubtract today) \<le> 27"
    using daysToSubtract_range [of today] by linarith
  from days_before_valid [OF assms(1) k] assms(2)
  have "valid_date (startOfWeek today)" "0 \<le> getFullYear (startOfWeek today)"
    by (simp_all add: startOfWeek_days_before [OF assms(1)])
  then show ?thesis
    by (simp add: startOfWeekMondayYYYYMMDD_def yyyymmdd_date_number)
qed

section \<open>Claim about the start of the week\<close>

text \<open>
  C7: for every valid current date of a year from 1 on, the number of days
  that is subtracted is \<open>(getDay today + 6) mod 7\<close>, with Sunday = 0 ..
  Saturday = 6; the date that \<open>setDate\<close> gives is the date that many days before
  today, also across the start of a month or a year; and the week start is the
  number made of the year, the month in two digits and the day in two digits of
  that date. On a Wednesday (3) the date is two days before today, on a Monday
  (1) it is today, and on a Sunday (0) it is six days before today.
\<close>

theorem week_start:
  "valid_date today \<Longrightarrow> 0 < getFullYear today \<Longrightarrow>
   daysToSubtract today = (getDay today + 6) mod 7 \<and>
   startOfWeek today = days_before (nat ((getDay today + 6) mod 7)) today \<and>
   startOfWeekMondayYYYYMMDD today
     = Some (date_number (days_before (nat ((getDay today + 6) mod 7)) today)) \<and>
   (getDay today = 3 \<longrightarrow> daysToSubtract today = 2 \<and> startOfWeek today = days_before 2 today) \<and>
   (getDay today = 1 \<longrightarrow> daysToSubtract today = 0 \<and> startOfWeek today = today) \<and>
   (getDay today = 0 \<longrightarrow> daysToSubtract today = 6 \<and> startOfWeek today = days_before 6 today)"
proof -
  assume v: "valid_date today" and y: "0 < getFullYear today"
  have n: "daysToSubtract today = (getDay today + 6) mod 7"
    by (simp add: daysToSubtract_def)
  have s: "startOfWeek today = days_before (nat ((getDay today + 6) mod 7)) today"
    using startOfWeek_days_before [OF v] by (simp add: n)
  have e: "startOfWeekMondayYYYYMMDD today
     = Some (date_number (days_before (nat ((getDay today + 6) mod 7)) today))"
    using startOfWeek_number [OF v y] by (simp add: s)
  have wed: "daysToSubtract today = 2 \<and> startOfWeek today = days_before 2 today"
    if "getDay today = 3"
    using that by (simp add: s n)
  have mon: "daysToSubtract today = 0 \<and> startOfWeek today = today" if "getDay today = 1"
    using that by (simp add: s n)
  have sun: "daysToSubtract today = 6 \<and> startOfWeek today = days_before 6 today"
    if "getDay today = 0"
    using that by (simp add: s n)
  from n s e wed mon sun show ?thesis by blast
qed

theorem week_start_witness:
  "valid_date \<lparr>getFullYear = 2024, getMonth = 0, getDate = 3\<rparr> \<and>
   0 < getFullYear \<lparr>getFullYear = 2024, getMonth = 0, getDate = 3\<rparr> \<and>
   getDay \<lparr>getFullYear = 2024, getMonth = 0, getDate = 3\<rparr> = 3 \<and>
   daysToSubtract \<lparr>getFullYear = 2024, getMonth = 0, getDate = 3\<rparr> = 2 \<and>
   startOfWeek \<lparr>getFullYear = 2024, getMonth = 0, getDate = 3\<rparr>
     = \<lparr>getFullYear = 2024, getMonth = 0, getDate = 1\<rparr> \<and>
   valid_date \<lparr>getFullYear = 2024, getMonth = 2, getDate = 3\<rparr> \<and>
   0 < getFullYear \<lparr>getFullYear = 2024, getMonth = 2, getDate = 3\<rparr> \<and>
   getDay \<lparr>getFullYear = 2024, getMonth = 2, getDate = 3\<rparr> = 0 \<and>
   daysToSubtract \<lparr>getFullYear = 2024, getMonth = 2, getDate = 3\<rparr> = 6 \<and>
   startOfWeek \<lparr>getFullYear = 2024, getMonth = 2, getDate = 3\<rparr>
     = \<lparr>getFullYear = 2024, getMonth = 1, getDate = 26\<rparr> \<and>
   startOfWeekMondayYYYYMMDD \<lparr>getFullYear = 2024, getMonth = 2, getDate = 3\<rparr>
     = Some 20240226"
proof -
  let ?wed = "\<lparr>getFullYear = 2024, getMonth = 0, getDate = 3\<rparr>"
  let ?sun = "\<lparr>getFullYear = 2024, getMonth = 2, getDate = 3\<rparr>"
  have v1: "valid_date ?wed" and v2: "valid_date ?sun"
    by (simp_all add: valid_date_def days_in_month_def)
  have y1: "0 < getFullYear ?wed" and y2: "0 < getFullYear ?sun" by simp_all
  have g1: "getDay ?wed = 3" and g2: "getDay ?sun = 0"
    by (simp_all add: getDay_def days_from_civil_def)
  from week_start [OF v1 y1] g1
  have w: "daysToSubtract ?wed = 2 \<and> startOfWeek ?wed = days_before 2 ?wed" by blast
  from week_start [OF v2 y2] g2
  have s: "daysToSubtract ?sun = 6 \<and> startOfWeek ?sun = days_before 6 ?sun" by blast
  from week_start [OF v2 y2] g2
  have e: "startOfWeekMondayYYYYMMDD ?sun
     = Some (date_number (days_before (nat ((0 + 6) mod 7)) ?sun))" by simp
  have d2: "days_before 2 ?wed = \<lparr>getFullYear = 2024, getMonth = 0, getDate = 1\<rparr>"
    by (simp add: eval_nat_numeral prev_day_def)
  have d6: "days_before 6 ?sun = \<lparr>getFullYear = 2024, getMonth = 1, getDate = 26\<rparr>"
    by (simp add: eval_nat_numeral prev_day_def days_in_month_def leap_year_def)
  have k: "nat ((0 + 6) mod 7) = 6" by simp
  from e have e': "startOfWeekMondayYYYYMMDD ?sun = Some 20240226"
    unfolding k d6 by (simp add: date_number_def)
  from w have w1: "daysToSubtract ?wed = 2"
    and w2: "startOfWeek ?wed = \<lparr>getFullYear = 2024, getMonth = 0, getDate = 1\<rparr>"
    by (simp_all add: d2)
  from s have s1: "daysToSubtract ?sun = 6"
    and s2: "startOfWeek ?sun = \<lparr>getFullYear = 2024, getMonth = 1, getDate = 26\<rparr>"
    by (simp_all add: d6)
  from v1 y1 g1 w1 w2 v2 y2 g2 s1 s2 e' show ?thesis by (intro conjI)
qed

section \<open>The journal blocks: basic facts\<close>

lemma count_list_filter:
  "count_list (filter P xs) r = (if P r then count_list xs r else 0)"
  by (induction xs) auto

lemma count_list_insert_by: "count_list (insert_by c x ys) r = count_list (x # ys) r"
  by (induction ys) auto

lemma count_list_js_sort: "count_list (js_sort c xs) r = count_list xs r"
  by (induction xs) (simp_all add: count_list_insert_by)

lemma keep_reference_fst:
  "keep_reference (Some w) r
     = (\<exists>p d. fst r = Some p \<and> journalDay p = Some d \<and> d \<noteq> 0 \<and> w \<le> d)"
  by (cases r) (simp add: keep_reference_iff del: keep_reference.simps)

lemma filter_keep_reference:
  "filter (keep_reference (Some w)) refs =
     filter (\<lambda>r. \<exists>p d. fst r = Some p \<and> journalDay p = Some d \<and> d \<noteq> 0 \<and> w \<le> d) refs"
  by (rule filter_cong [OF refl]) (rule keep_reference_fst)

lemma journalBlocks_Some:
  "journalBlocks start (Some refs) = Some (js_sort compare_refs (filter (keep_reference start) refs))"
  by (simp add: journalBlocks_def)

lemma map_result_length: "map_result f xs = Inr ys \<Longrightarrow> length ys = length xs"
  by (induction xs arbitrary: ys) (auto split: sum.splits)

lemma buildMd_sections:
  assumes "journalBlocks (startOfWeekMondayYYYYMMDD today) (Some refs) = Some gs"
  shows "\<exists>sections. map_result (build_section page) gs = Inr sections \<and>
           length sections = length gs \<and>
           buildMd page pageBlocks (Some refs) today
             = Inr (render_page pageBlocks @ ''----'' @ [newline] @ ''## Backlog'' @ [newline]
                    @ join [newline] sections)"
proof -
  from assms have gs: "gs = js_sort compare_refs
      (filter (keep_reference (startOfWeekMondayYYYYMMDD today)) refs)"
    by (simp add: journalBlocks_Some)
  have "\<forall>r \<in> set gs. fst r \<noteq> None"
    unfolding gs
    by (auto simp: set_js_sort simp del: keep_reference.simps dest: keep_reference_page)
  then obtain ss where ss: "map_result (build_section page) gs = Inr ss"
    using map_result_sections by blast
  from ss assms map_result_length [OF ss] show ?thesis
    by (simp add: buildMd_def Let_def)
qed

lemma tagged_nth:
  assumes "t \<in> set (tagged xs)"
  shows "snd t < length xs \<and> fst t = xs ! snd t"
  using assms unfolding tagged_def in_set_zip by auto

lemma sorted_positions:
  fixes fs :: "linked_reference list"
  defines "ys \<equiv> js_sort compare_tagged (tagged fs)"
  shows "map fst ys = js_sort compare_refs fs"
    and "length ys = length fs"
    and "bij_betw (\<lambda>p. snd (ys ! p)) {..<length fs} {..<length fs}"
    and "p < length fs \<Longrightarrow> fst (ys ! p) = fs ! snd (ys ! p)"
proof -
  have cmp: "compare_tagged = (\<lambda>a b. compare_refs (fst a) (fst b))"
    by (intro ext) (simp add: compare_tagged_def)
  show m: "map fst ys = js_sort compare_refs fs"
    unfolding ys_def cmp by (simp add: map_fst_js_sort map_fst_tagged)
  show len: "length ys = length fs"
    by (simp add: ys_def length_js_sort tagged_def)
  have set_ys: "set ys = set (tagged fs)"
    by (simp add: ys_def set_js_sort)
  have set_snd: "set (map snd ys) = {..<length fs}"
  proof -
    have "set (map snd ys) = set (map snd (tagged fs))"
      by (simp add: set_ys)
    also have "\<dots> = {..<length fs}"
      by (auto simp: map_snd_tagged)
    finally show ?thesis .
  qed
  have "card (set (map snd ys)) = length (map snd ys)"
    unfolding set_snd by (simp add: len)
  then have dist: "distinct (map snd ys)"
    by (rule card_distinct)
  have "bij_betw ((!) (map snd ys)) {..<length (map snd ys)} (set (map snd ys))"
    by (rule bij_betw_nth [OF dist refl refl])
  then have b: "bij_betw ((!) (map snd ys)) {..<length fs} {..<length fs}"
    unfolding set_snd by (simp add: len)
  have "(map snd ys) ! p = snd (ys ! p)" if "p \<in> {..<length fs}" for p
    using that by (simp add: len)
  then have "bij_betw ((!) (map snd ys)) {..<length fs} {..<length fs}
      = bij_betw (\<lambda>p. snd (ys ! p)) {..<length fs} {..<length fs}"
    by (rule bij_betw_cong)
  with b show "bij_betw (\<lambda>p. snd (ys ! p)) {..<length fs} {..<length fs}"
    by simp
  show "fst (ys ! p) = fs ! snd (ys ! p)" if "p < length fs"
  proof -
    from that have "ys ! p \<in> set ys" by (simp add: len)
    then have "ys ! p \<in> set (tagged fs)" by (simp add: set_ys)
    then show ?thesis using tagged_nth by blast
  qed
qed

lemma sorted_order:
  fixes fs :: "linked_reference list"
  assumes "p < length fs" "q < length fs"
  shows "p < q \<longleftrightarrow>
     journalDay_or_0 (fst (js_sort compare_refs fs ! p))
       > journalDay_or_0 (fst (js_sort compare_refs fs ! q)) \<or>
     (journalDay_or_0 (fst (js_sort compare_refs fs ! p))
        = journalDay_or_0 (fst (js_sort compare_refs fs ! q)) \<and>
      snd (js_sort compare_tagged (tagged fs) ! p) < snd (js_sort compare_tagged (tagged fs) ! q))"
proof -
  let ?ys = "js_sort compare_tagged (tagged fs)"
  have len: "length ?ys = length fs" by (rule sorted_positions(2))
  have nth: "js_sort compare_refs fs ! k = fst (?ys ! k)" if "k < length fs" for k
    using that sorted_positions(1) [of fs] len by (metis nth_map)
  from assms have "p < q \<longleftrightarrow> goes_before (?ys ! p) (?ys ! q)"
    by (intro position_iff [OF sorted_sort_tagged]) (simp_all add: len)
  then show ?thesis
    by (simp add: goes_before_def sort_key_def nth assms)
qed

section \<open>Claims about the filter and the sort\<close>

text \<open>
  C5: for every sequence of linked references and every week start \<open>w\<close>,
  \<open>journalBlocks\<close> gives a sequence, with no error, in which a reference occurs
  as often as in the sequence that was fetched when its page is there, the page
  has a \<open>journalDay\<close>, that day is not 0 and it is at least \<open>w\<close>, and does not
  occur at all otherwise. When \<open>w\<close> is the start of the current week,
  \<open>buildMd\<close> gives a document with one section for each reference that was
  kept. The callback of the filter is true for exactly these references.
\<close>

theorem filter_step:
  "(\<exists>gs. journalBlocks (Some w) (Some refs) = Some gs \<and>
      (\<forall>r. count_list gs r =
         (if \<exists>p d. fst r = Some p \<and> journalDay p = Some d \<and> d \<noteq> 0 \<and> w \<le> d
          then count_list refs r else 0)) \<and>
      (\<forall>r. r \<in> set gs \<longleftrightarrow>
         r \<in> set refs \<and> (\<exists>p d. fst r = Some p \<and> journalDay p = Some d \<and> d \<noteq> 0 \<and> w \<le> d)) \<and>
      (startOfWeekMondayYYYYMMDD today = Some w \<longrightarrow>
         (\<exists>sections. map_result (build_section pg) gs = Inr sections \<and>
            length sections = length gs \<and>
            buildMd pg pageBlocks (Some refs) today
              = Inr (render_page pageBlocks @ ''----'' @ [newline] @ ''## Backlog'' @ [newline]
                     @ join [newline] sections)))) \<and>
   journalBlocks (Some w) (Some refs)
     = Some (js_sort compare_refs
         (filter (\<lambda>r. \<exists>p d. fst r = Some p \<and> journalDay p = Some d \<and> d \<noteq> 0 \<and> w \<le> d) refs)) \<and>
   (keep_reference (Some w) (page, blocks) \<longleftrightarrow>
      (\<exists>p d. page = Some p \<and> journalDay p = Some d \<and> d \<noteq> 0 \<and> w \<le> d))"
proof -
  let ?c = "\<lambda>r::linked_reference. \<exists>p d. fst r = Some p \<and> journalDay p = Some d \<and> d \<noteq> 0 \<and> w \<le> d"
  let ?gs = "js_sort compare_refs (filter ?c refs)"
  have jb: "journalBlocks (Some w) (Some refs) = Some ?gs"
    by (simp only: journalBlocks_Some filter_keep_reference)
  have cnt: "count_list ?gs r = (if ?c r then count_list refs r else 0)" for r
    by (simp only: count_list_js_sort count_list_filter)
  have mem: "r \<in> set ?gs \<longleftrightarrow> r \<in> set refs \<and> ?c r" for r
    by (simp add: set_js_sort)
  have doc: "\<exists>sections. map_result (build_section pg) ?gs = Inr sections \<and>
            length sections = length ?gs \<and>
            buildMd pg pageBlocks (Some refs) today
              = Inr (render_page pageBlocks @ ''----'' @ [newline] @ ''## Backlog'' @ [newline]
                     @ join [newline] sections)"
    if "startOfWeekMondayYYYYMMDD today = Some w"
    using buildMd_sections [of today refs ?gs pg pageBlocks] jb that by simp
  from jb cnt mem doc keep_reference_iff [of w page blocks] show ?thesis by blast
qed

theorem filter_step_witness:
  "startOfWeekMondayYYYYMMDD \<lparr>getFullYear = 2024, getMonth = 0, getDate = 3\<rparr> = Some 20240101 \<and>
   journalBlocks (Some 20240101)
     (Some [(None, []),
            (Some \<lparr>originalName = ''a'', journalDay = None\<rparr>, []),
            (Some \<lparr>originalName = ''b'', journalDay = Some 0\<rparr>, []),
            (Some \<lparr>originalName = ''c'', journalDay = Some 20231231\<rparr>, []),
            (Some \<lparr>originalName = ''d'', journalDay = Some 20240101\<rparr>, [])])
     = Some [(Some \<lparr>originalName = ''d'', journalDay = Some 20240101\<rparr>, [])] \<and>
   (\<exists>sections.
      length sections = 1 \<and>
      buildMd ''Page'' []
        (Some [(None, []),
               (Some \<lparr>originalName = ''a'', journalDay = None\<rparr>, []),
               (Some \<lparr>originalName = ''b'', journalDay = Some 0\<rparr>, []),
               (Some \<lparr>originalName = ''c'', journalDay = Some 20231231\<rparr>, []),
               (Some \<lparr>originalName = ''d'', journalDay = Some 20240101\<rparr>, [])])
        \<lparr>getFullYear = 2024, getMonth = 0, getDate = 3\<rparr>
      = Inr (render_page [] @ ''----'' @ [newline] @ ''## Backlog'' @ [newline]
             @ join [newline] sections))"
proof -
  define refs :: "linked_reference list" where
    "refs = [(None, []),
            (Some \<lparr>originalName = ''a'', journalDay = None\<rparr>, []),
            (Some \<lparr>originalName = ''b'', journalDay = Some 0\<rparr>, []),
            (Some \<lparr>originalName = ''c'', journalDay = Some 20231231\<rparr>, []),
            (Some \<lparr>originalName = ''d'', journalDay = Some 20240101\<rparr>, [])]"
  define kept :: "linked_reference list" where
    "kept = [(Some \<lparr>originalName = ''d'', journalDay = Some 20240101\<rparr>, [])]"
  define today where "today = \<lparr>getFullYear = 2024, getMonth = 0, getDate = 3\<rparr>"
  define w :: int where "w = 20240101"
  define doc_of where
    "doc_of sections = (Inr (render_page [] @ ''----'' @ [newline] @ ''## Backlog'' @ [newline]
             @ join [newline] sections) :: error + string)" for sections
  have st: "startOfWeekMondayYYYYMMDD today = Some w"
    unfolding today_def w_def by (rule start_example)
  note t = filter_step [of w refs today "''Page''" "[]" None "[]", folded doc_of_def]
  from t have "journalBlocks (Some w) (Some refs)
     = Some (js_sort compare_refs
         (filter (\<lambda>r. \<exists>p d. fst r = Some p \<and> journalDay p = Some d \<and> d \<noteq> 0 \<and> w \<le> d) refs))"
    by (elim conjE)
  also have "js_sort compare_refs
         (filter (\<lambda>r. \<exists>p d. fst r = Some p \<and> journalDay p = Some d \<and> d \<noteq> 0 \<and> w \<le> d) refs) = kept"
    unfolding refs_def kept_def w_def by simp
  finally have jb: "journalBlocks (Some w) (Some refs) = Some kept" .
  from t obtain gs
    where gs: "journalBlocks (Some w) (Some refs) = Some gs"
      and imp: "startOfWeekMondayYYYYMMDD today = Some w \<longrightarrow>
         (\<exists>sections. map_result (build_section ''Page'') gs = Inr sections \<and>
            length sections = length gs \<and>
            buildMd ''Page'' [] (Some refs) today = doc_of sections)"
    by (elim conjE exE)
  from imp st obtain sections
    where len: "length sections = length gs"
      and doc: "buildMd ''Page'' [] (Some refs) today = doc_of sections"
    by (elim impE exE conjE)
  from gs jb have "gs = kept" by simp
  with len have "length sections = 1" by (simp add: kept_def)
  with doc have ex: "\<exists>sections. length sections = 1 \<and>
      buildMd ''Page'' [] (Some refs) today = doc_of sections"
    by (intro exI conjI)
  from st jb ex have "startOfWeekMondayYYYYMMDD today = Some w \<and>
     journalBlocks (Some w) (Some refs) = Some kept \<and>
     (\<exists>sections. length sections = 1 \<and>
        buildMd ''Page'' [] (Some refs) today = doc_of sections)"
    by (intro conjI)
  then show ?thesis
    unfolding refs_def kept_def today_def w_def doc_of_def .
qed

text \<open>
  C6: for every sequence of linked references, \<open>journalBlocks\<close> gives the
  references that pass the filter in a new order: there is a one-to-one map
  \<open>\<pi>\<close> from the positions of the result to the positions in the filtered
  sequence, with the same reference at both, such that for any two positions
  \<open>p\<close> and \<open>q\<close> of the result, \<open>p\<close> is before \<open>q\<close> exactly when the reference
  at \<open>p\<close> has the greater \<open>journalDay\<close> (a missing one counting as 0), or the
  same \<open>journalDay\<close> and the earlier position in the filtered sequence. The
  sections of the document of \<open>buildMd\<close> are those of the result, in its order.
\<close>

theorem sort_step:
  "\<exists>gs \<pi>. journalBlocks start (Some refs) = Some gs \<and>
     length gs = length (filter (keep_reference start) refs) \<and>
     bij_betw \<pi> {..<length gs} {..<length gs} \<and>
     (\<forall>p. p < length gs \<longrightarrow> gs ! p = filter (keep_reference start) refs ! \<pi> p) \<and>
     (\<forall>p q. p < length gs \<and> q < length gs \<longrightarrow>
        (p < q \<longleftrightarrow>
           journalDay_or_0 (fst (gs ! p)) > journalDay_or_0 (fst (gs ! q)) \<or>
           (journalDay_or_0 (fst (gs ! p)) = journalDay_or_0 (fst (gs ! q)) \<and> \<pi> p < \<pi> q))) \<and>
     (start = startOfWeekMondayYYYYMMDD today \<longrightarrow>
        (\<exists>sections. map_result (build_section page) gs = Inr sections \<and>
           length sections = length gs \<and>
           buildMd page pageBlocks (Some refs) today
             = Inr (render_page pageBlocks @ ''----'' @ [newline] @ ''## Backlog'' @ [newline]
                    @ join [newline] sections)))"
proof -
  let ?fs = "filter (keep_reference start) refs"
  let ?gs = "js_sort compare_refs ?fs"
  let ?ys = "js_sort compare_tagged (tagged ?fs)"
  let ?pi = "\<lambda>p. snd (?ys ! p)"
  have jb: "journalBlocks start (Some refs) = Some ?gs"
    by (rule journalBlocks_Some)
  have len: "length ?gs = length ?fs"
    by (rule length_js_sort)
  have bij: "bij_betw ?pi {..<length ?gs} {..<length ?gs}"
    unfolding len by (rule sorted_positions(3))
  have nth: "?gs ! p = ?fs ! ?pi p" if "p < length ?gs" for p
  proof -
    from that have p: "p < length ?fs" by (simp only: len)
    have "?gs ! p = fst (?ys ! p)"
      using p sorted_positions(1) [of ?fs] sorted_positions(2) [of ?fs] by (metis nth_map)
    with sorted_positions(4) [OF p] show ?thesis by simp
  qed
  have ord: "p < q \<longleftrightarrow>
           journalDay_or_0 (fst (?gs ! p)) > journalDay_or_0 (fst (?gs ! q)) \<or>
           (journalDay_or_0 (fst (?gs ! p)) = journalDay_or_0 (fst (?gs ! q)) \<and> ?pi p < ?pi q)"
    if "p < length ?gs \<and> q < length ?gs" for p q
    using that by (intro sorted_order) (simp_all only: len)
  have doc: "\<exists>sections. map_result (build_section page) ?gs = Inr sections \<and>
           length sections = length ?gs \<and>
           buildMd page pageBlocks (Some refs) today
             = Inr (render_page pageBlocks @ ''----'' @ [newline] @ ''## Backlog'' @ [newline]
                    @ join [newline] sections)"
    if "start = startOfWeekMondayYYYYMMDD today"
    using buildMd_sections [of today refs ?gs page pageBlocks] jb that by simp
  show ?thesis
    apply (rule exI [of _ ?gs], rule exI [of _ ?pi])
    using jb len bij nth ord doc by blast
qed

theorem sort_step_witness:
  "(1::nat) < 3 \<and> (2::nat) < 3 \<and>
   Some 20240101 = startOfWeekMondayYYYYMMDD \<lparr>getFullYear = 2024, getMonth = 0, getDate = 3\<rparr> \<and>
   (\<exists>gs (\<pi> :: nat \<Rightarrow> nat).
      journalBlocks (Some 20240101)
        (Some [(Some \<lparr>originalName = ''a'', journalDay = Some 20240102\<rparr>, []),
               (Some \<lparr>originalName = ''b'', journalDay = Some 20240105\<rparr>, []),
               (Some \<lparr>originalName = ''c'', journalDay = Some 20240102\<rparr>, [])]) = Some gs \<and>
      gs = [(Some \<lparr>originalName = ''b'', journalDay = Some 20240105\<rparr>, []),
            (Some \<lparr>originalName = ''a'', journalDay = Some 20240102\<rparr>, []),
            (Some \<lparr>originalName = ''c'', journalDay = Some 20240102\<rparr>, [])] \<and>
      bij_betw \<pi> {..<3} {..<3} \<and>
      gs ! 1 = [(Some \<lparr>originalName = ''a'', journalDay = Some 20240102\<rparr>, []),
                (Some \<lparr>originalName = ''b'', journalDay = Some 20240105\<rparr>, []),
                (Some \<lparr>originalName = ''c'', journalDay = Some 20240102\<rparr>, [])] ! \<pi> 1 \<and>
      \<pi> 1 < \<pi> 2 \<and>
      (\<exists>sections. length sections = 3 \<and>
         buildMd ''Page'' []
           (Some [(Some \<lparr>originalName = ''a'', journalDay = Some 20240102\<rparr>, []),
                  (Some \<lparr>originalName = ''b'', journalDay = Some 20240105\<rparr>, []),
                  (Some \<lparr>originalName = ''c'', journalDay = Some 20240102\<rparr>, [])])
           \<lparr>getFullYear = 2024, getMonth = 0, getDate = 3\<rparr>
         = Inr (render_page [] @ ''----'' @ [newline] @ ''## Backlog'' @ [newline]
                @ join [newline] sections)))"
proof -
  define refs :: "linked_reference list" where
    "refs = [(Some \<lparr>originalName = ''a'', journalDay = Some 20240102\<rparr>, []),
             (Some \<lparr>originalName = ''b'', journalDay = Some 20240105\<rparr>, []),
             (Some \<lparr>originalName = ''c'', journalDay = Some 20240102\<rparr>, [])]"
  define sorted_refs :: "linked_reference list" where
    "sorted_refs = [(Some \<lparr>originalName = ''b'', journalDay = Some 20240105\<rparr>, []),
                    (Some \<lparr>originalName = ''a'', journalDay = Some 20240102\<rparr>, []),
                    (Some \<lparr>originalName = ''c'', journalDay = Some 20240102\<rparr>, [])]"
  define today where "today = \<lparr>getFullYear = 2024, getMonth = 0, getDate = 3\<rparr>"
  define start :: "int option" where "start = Some 20240101"
  define doc_of where
    "doc_of sections = (Inr (render_page [] @ ''----'' @ [newline] @ ''## Backlog'' @ [newline]
             @ join [newline] sections) :: error + string)" for sections
  have st: "start = startOfWeekMondayYYYYMMDD today"
    unfolding today_def start_def by (simp add: start_example)
  have fl: "filter (keep_reference start) refs = refs"
    unfolding refs_def start_def by simp
  have ev: "journalBlocks start (Some refs) = Some sorted_refs"
    unfolding refs_def sorted_refs_def start_def
    by (simp add: journalBlocks_def compare_refs_def journalDay_or_0_def)
  have len3: "length sorted_refs = 3" by (simp add: sorted_refs_def)
  have days: "journalDay_or_0 (fst (sorted_refs ! 1)) = journalDay_or_0 (fst (sorted_refs ! 2))"
    by (simp add: sorted_refs_def journalDay_or_0_def)
  from sort_step [of start refs today "''Page''" "[]", folded doc_of_def] obtain gs \<pi>
    where gs: "journalBlocks start (Some refs) = Some gs"
      and bij: "bij_betw \<pi> {..<length gs} {..<length gs}"
      and nth: "\<forall>p. p < length gs \<longrightarrow> gs ! p = filter (keep_reference start) refs ! \<pi> p"
      and ord: "\<forall>p q. p < length gs \<and> q < length gs \<longrightarrow>
        (p < q \<longleftrightarrow>
           journalDay_or_0 (fst (gs ! p)) > journalDay_or_0 (fst (gs ! q)) \<or>
           (journalDay_or_0 (fst (gs ! p)) = journalDay_or_0 (fst (gs ! q)) \<and> \<pi> p < \<pi> q))"
      and doc: "start = startOfWeekMondayYYYYMMDD today \<longrightarrow>
        (\<exists>sections. map_result (build_section ''Page'') gs = Inr sections \<and>
           length sections = length gs \<and>
           buildMd ''Page'' [] (Some refs) today = doc_of sections)"
    by (elim exE conjE)
  from gs ev have g: "gs = sorted_refs" by simp
  have l: "length gs = 3" by (simp only: g len3)
  have i1: "(1::nat) < 3" and i2: "(2::nat) < 3" by simp_all
  from bij have b: "bij_betw \<pi> {..<3} {..<3}" by (simp only: l)
  have c1: "1 < length gs" and c12: "1 < length gs \<and> 2 < length gs"
    by (simp_all only: l i1 i2 simp_thms)
  from nth [rule_format, OF c1] have n1: "gs ! 1 = refs ! \<pi> 1"
    by (simp only: fl)
  have eqd: "journalDay_or_0 (fst (gs ! 1)) = journalDay_or_0 (fst (gs ! 2))"
    by (simp only: g days)
  from ord [rule_format, OF c12] eqd have o: "\<pi> 1 < \<pi> 2"
    by simp
  from doc st obtain sections
    where "length sections = length gs"
      and d: "buildMd ''Page'' [] (Some refs) today = doc_of sections"
    by (elim impE exE conjE)
  then have "length sections = 3" by (simp only: l)
  with d have s: "\<exists>sections. length sections = 3 \<and>
         buildMd ''Page'' [] (Some refs) today = doc_of sections"
    by (intro exI conjI)
  from gs g b n1 o s have "\<exists>gs (\<pi> :: nat \<Rightarrow> nat).
      journalBlocks start (Some refs) = Some gs \<and> gs = sorted_refs \<and>
      bij_betw \<pi> {..<3} {..<3} \<and> gs ! 1 = refs ! \<pi> 1 \<and> \<pi> 1 < \<pi> 2 \<and>
      (\<exists>sections. length sections = 3 \<and>
         buildMd ''Page'' [] (Some refs) today = doc_of sections)"
    by blast
  with i1 i2 st have "(1::nat) < 3 \<and> (2::nat) < 3 \<and>
     start = startOfWeekMondayYYYYMMDD today \<and>
     (\<exists>gs (\<pi> :: nat \<Rightarrow> nat).
      journalBlocks start (Some refs) = Some gs \<and> gs = sorted_refs \<and>
      bij_betw \<pi> {..<3} {..<3} \<and> gs ! 1 = refs ! \<pi> 1 \<and> \<pi> 1 < \<pi> 2 \<and>
      (\<exists>sections. length sections = 3 \<and>
         buildMd ''Page'' [] (Some refs) today = doc_of sections))"
    by (intro conjI)
  then show ?thesis
    unfolding refs_def sorted_refs_def today_def start_def doc_of_def .
qed

end
